theory Spec2Isabelle
  imports Main "HOL-Library.Sublist"
begin

section \<open>Python values and strings\<close>

text \<open>
  The account records handed to the follower are JSON objects decoded into Python
  dictionaries, so a value under a key can be any JSON value.  \<open>PNone\<close> is Python's
  \<open>None\<close>; \<open>truthy\<close> is Python's truth test, which is what \<open>or\<close>, \<open>not\<close> and
  \<open>if x\<close> apply to a value.
\<close>

datatype pyval =
    PNone
  | PBool bool
  | PInt int
  | PStr string
  | PList "pyval list"
  | PDict "(string \<times> pyval) list"

fun truthy :: "pyval \<Rightarrow> bool" where
  "truthy PNone = False"
| "truthy (PBool b) = b"
| "truthy (PInt i) = (i \<noteq> 0)"
| "truthy (PStr s) = (s \<noteq> [])"
| "truthy (PList xs) = (xs \<noteq> [])"
| "truthy (PDict kvs) = (kvs \<noteq> [])"

text \<open>Python's \<open>x or y\<close>: the value \<open>x\<close> itself when it is truthy, otherwise \<open>y\<close>.\<close>

definition py_or :: "pyval \<Rightarrow> pyval \<Rightarrow> pyval" where
  "py_or x y = (if truthy x then x else y)"

type_synonym pydict = "string \<rightharpoonup> pyval"

text \<open>\<open>d.get(k)\<close>: the value under \<open>k\<close>, or \<open>None\<close> when the key is absent.\<close>

definition dict_get :: "pydict \<Rightarrow> string \<Rightarrow> pyval" where
  "dict_get d k = (case d k of Some v \<Rightarrow> v | None \<Rightarrow> PNone)"

text \<open>
  \<open>str.lower()\<close> on the letters A to Z; every other character is left as it is.  The
  two patterns the follower searches for consist of lower-case ASCII letters and a space;
  messages are taken to be ASCII text.
\<close>

definition lower_char :: "char \<Rightarrow> char" where
  "lower_char c =
     (case map_of (zip ''ABCDEFGHIJKLMNOPQRSTUVWXYZ'' ''abcdefghijklmnopqrstuvwxyz'') c of
        Some l \<Rightarrow> l
      | None \<Rightarrow> c)"

definition lower :: "string \<Rightarrow> string" where
  "lower s = map lower_char s"

text \<open>
  Python's \<open>p in s\<close> on strings is the contiguous-substring test, \<^const>\<open>sublist\<close>.
  The specification's "case-insensitive substring match" compares both sides modulo case.
\<close>

definition contains_ci :: "string \<Rightarrow> string \<Rightarrow> bool" where
  "contains_ci p s = sublist (lower p) (lower s)"

section \<open>The remote service, the clock and the trace of effects\<close>

text \<open>
  An exception is a value carrying its message \<open>str(e)\<close>.  Its class is not recorded:
  both handlers in the source are \<open>except Exception\<close>, which catch the errors of the
  client library as well as the \<open>ValueError\<close>, \<open>OverflowError\<close> and \<open>OSError\<close> of
  \<open>time.sleep\<close>.
\<close>

datatype exn = Exception string

text \<open>What \<open>client.follow(did)\<close> returns: an object that may have a \<open>uri\<close> attribute.\<close>

datatype follow_response = FollowResponse (resp_uri: "pyval option")

text \<open>A raw actor of a search page; \<open>did\<close> and \<open>handle\<close> are always present, the other
  attributes may be missing (\<open>None\<close> here), which \<open>getattr\<close> replaces by a default.\<close>

record actor =
  actor_did :: string
  actor_handle :: string
  actor_display_name :: "pyval option"
  actor_description :: "pyval option"
  actor_avatar :: "pyval option"
  actor_followers_count :: "pyval option"

text \<open>The \<open>params\<close> dictionary of one search request; the key \<open>cursor\<close> is optional.\<close>

record search_params =
  param_q :: string
  param_limit :: nat
  param_cursor :: "string option"

text \<open>A search response: \<open>actors\<close> may be a missing attribute; a missing \<open>cursor\<close>
  attribute and a cursor that is \<open>None\<close> are both \<open>None\<close> here.\<close>

record search_response =
  resp_actors :: "actor list option"
  resp_cursor :: "string option"

text \<open>
  The remote service, the clock and the platform are parameters.  The \<open>n\<close>-th call of a
  kind (counted from 0) may answer anything, so every stream of responses is covered.
  \<open>sleep_error\<close> says what the platform does with a non-negative delay handed to
  \<open>time.sleep\<close>: \<open>None\<close> when the pause completes, or the exception it raises when the
  delay is too large for the platform's clock.
\<close>

record remote =
  client_follow :: "nat \<Rightarrow> pyval \<Rightarrow> exn + follow_response"
  search_actors :: "nat \<Rightarrow> search_params \<Rightarrow> exn + search_response"
  now_iso :: "nat \<Rightarrow> string"
  sleep_error :: "int \<Rightarrow> exn option"

text \<open>
  The effects of a run, made explicit: the identifiers passed to \<open>client.follow\<close>, the
  search requests with their outcomes, the number of clock readings and the pauses taken,
  each in the order they happened.  Log lines are not modelled.
\<close>

record world =
  follow_calls :: "pyval list"
  search_log :: "(search_params \<times> (exn + search_response)) list"
  clock_reads :: nat
  slept :: "int list"

definition now :: "remote \<Rightarrow> world \<Rightarrow> string \<times> world" where
  "now env w = (now_iso env (clock_reads w), w\<lparr>clock_reads := Suc (clock_reads w)\<rparr>)"

text \<open>
  \<open>time.sleep(d)\<close> on an integer delay.  The delays come from the requests unvalidated:
  a negative one raises \<open>ValueError\<close>, and one the platform cannot represent raises as
  \<open>sleep_error\<close> says; otherwise the pause is taken.
\<close>

definition sleep :: "remote \<Rightarrow> int \<Rightarrow> world \<Rightarrow> exn + world" where
  "sleep env d w =
     (if d < 0 then Inl (Exception ''sleep length must be non-negative'')
      else case sleep_error env d of
             Some e \<Rightarrow> Inl e
           | None \<Rightarrow> Inr (w\<lparr>slept := slept w @ [d]\<rparr>))"

definition do_follow :: "remote \<Rightarrow> pyval \<Rightarrow> world \<Rightarrow> (exn + follow_response) \<times> world" where
  "do_follow env did w =
     (client_follow env (length (follow_calls w)) did,
      w\<lparr>follow_calls := follow_calls w @ [did]\<rparr>)"

definition do_search ::
  "remote \<Rightarrow> search_params \<Rightarrow> world \<Rightarrow> (exn + search_response) \<times> world" where
  "do_search env params w =
     (let outcome = search_actors env (length (search_log w)) params
      in (outcome, w\<lparr>search_log := search_log w @ [(params, outcome)]\<rparr>))"

section \<open>The follower\<close>

text \<open>
  A result dictionary.  An optional field is \<open>None\<close> when the dictionary has no such
  key: \<open>uri\<close> exists on success only (its value may be Python's \<open>None\<close>), \<open>error\<close> on
  failure only, and \<open>timestamp\<close> where the source writes it.
\<close>

record follow_result =
  r_did :: pyval
  r_handle :: pyval
  r_success :: bool
  r_uri :: "pyval option"
  r_error :: "string option"
  r_timestamp :: "string option"

text \<open>
  \<open>BlueskyFollower.follow_user\<close>.  The result type has room for an exception that
  leaves the function; the \<open>except\<close> clause turns every exception of the call into a
  result.
\<close>

definition follow_user ::
  "remote \<Rightarrow> pyval \<Rightarrow> pyval \<Rightarrow> world \<Rightarrow> (exn + follow_result) \<times> world" where
  "follow_user env did handle w =
     (case do_follow env did w of
        (Inr result, w1) \<Rightarrow>
          (case now env w1 of (ts, w2) \<Rightarrow>
            (Inr \<lparr>r_did = did, r_handle = handle, r_success = True,
                  r_uri = Some (case resp_uri result of Some u \<Rightarrow> u | None \<Rightarrow> PNone),
                  r_error = None, r_timestamp = Some ts\<rparr>, w2))
      | (Inl (Exception error_msg), w1) \<Rightarrow>
          (case now env w1 of (ts, w2) \<Rightarrow>
            if sublist ''already following'' (lower error_msg) then
              (Inr \<lparr>r_did = did, r_handle = handle, r_success = False, r_uri = None,
                    r_error = Some ''Already following'', r_timestamp = Some ts\<rparr>, w2)
            else if sublist ''rate limit'' (lower error_msg) then
              (Inr \<lparr>r_did = did, r_handle = handle, r_success = False, r_uri = None,
                    r_error = Some ''Rate limited'', r_timestamp = Some ts\<rparr>, w2)
            else
              (Inr \<lparr>r_did = did, r_handle = handle, r_success = False, r_uri = None,
                    r_error = Some error_msg, r_timestamp = Some ts\<rparr>, w2)))"

text \<open>
  The running state of \<open>follow_bulk\<close>: the \<open>results\<close> list and the four counters
  the loop maintains.
\<close>

record bulk_state =
  results :: "follow_result list"
  successful :: nat
  failed :: nat
  already_following :: nat
  rate_limited :: nat

datatype loop_ctl = Continue | Break

text \<open>The dictionary appended for an account without identifier.\<close>

definition no_did_result :: "pyval \<Rightarrow> follow_result" where
  "no_did_result handle =
     \<lparr>r_did = PNone, r_handle = handle, r_success = False, r_uri = None,
      r_error = Some ''No DID provided'', r_timestamp = None\<rparr>"

text \<open>\<open>account.get('did') or account.get('DID')\<close> and the same for the handle.\<close>

definition account_did :: "pydict \<Rightarrow> pyval" where
  "account_did account = py_or (dict_get account ''did'') (dict_get account ''DID'')"

definition account_handle :: "pydict \<Rightarrow> pyval" where
  "account_handle account = py_or (dict_get account ''handle'') (dict_get account ''Handle'')"

text \<open>
  One iteration of the \<open>for\<close> loop of \<open>follow_bulk\<close> on the \<open>i\<close>-th account
  (counted from 1) of \<open>total\<close>.  \<open>Continue\<close> covers both the \<open>continue\<close> statement and
  falling off the end of the body; \<open>Break\<close> is the \<open>break\<close>.  The pause of the last
  statement of the body needs a successful result, so it sits in that branch; it is
  outside any \<open>try\<close>, so an exception of \<open>time.sleep\<close> leaves the loop and the function.
\<close>

definition follow_body ::
  "remote \<Rightarrow> int \<Rightarrow> nat \<Rightarrow> nat \<Rightarrow> pydict \<Rightarrow> bulk_state \<Rightarrow> world
     \<Rightarrow> (exn + loop_ctl \<times> bulk_state) \<times> world" where
  "follow_body env delay total_n i account st w =
     (let did = account_did account;
          handle = account_handle account
      in if \<not> truthy did then
           (Inr (Continue, st\<lparr>results := results st @ [no_did_result handle],
                              failed := failed st + 1\<rparr>), w)
         else
           (case follow_user env did handle w of
              (Inl e, w1) \<Rightarrow> (Inl e, w1)
            | (Inr result, w1) \<Rightarrow>
                (let st1 = st\<lparr>results := results st @ [result]\<rparr> in
                 if r_success result then
                   (let st2 = st1\<lparr>successful := successful st1 + 1\<rparr> in
                    if i < total_n then
                      (case sleep env delay w1 of
                         Inl e \<Rightarrow> (Inl e, w1)
                       | Inr w2 \<Rightarrow> (Inr (Continue, st2), w2))
                    else (Inr (Continue, st2), w1))
                 else
                   (let error = (case r_error result of Some e \<Rightarrow> e
                                 | None \<Rightarrow> ''Unknown error'')
                    in if sublist ''Already following'' error then
                         (Inr (Continue,
                               st1\<lparr>already_following := already_following st1 + 1\<rparr>), w1)
                       else if sublist ''Rate limited'' error then
                         (Inr (Break, st1\<lparr>rate_limited := rate_limited st1 + 1\<rparr>), w1)
                       else
                         (Inr (Continue, st1\<lparr>failed := failed st1 + 1\<rparr>), w1)))))"

fun follow_loop ::
  "remote \<Rightarrow> int \<Rightarrow> nat \<Rightarrow> nat \<Rightarrow> pydict list \<Rightarrow> bulk_state \<Rightarrow> world
     \<Rightarrow> (exn + bulk_state) \<times> world" where
  "follow_loop env delay total_n i [] st w = (Inr st, w)"
| "follow_loop env delay total_n i (account # rest) st w =
     (case follow_body env delay total_n i account st w of
        (Inl e, w1) \<Rightarrow> (Inl e, w1)
      | (Inr (Break, st1), w1) \<Rightarrow> (Inr st1, w1)
      | (Inr (Continue, st1), w1) \<Rightarrow> follow_loop env delay total_n (i + 1) rest st1 w1)"

text \<open>Python's \<open>xs[:m]\<close>; a negative \<open>m\<close> counts from the end of the list.\<close>

definition slice_to :: "'a list \<Rightarrow> int \<Rightarrow> 'a list" where
  "slice_to xs m =
     (if 0 \<le> m then take (nat m) xs else take (nat (int (length xs) + m)) xs)"

text \<open>\<open>accounts[:max_follows] if max_follows else accounts\<close>: the test is Python's truth
  test, so \<open>None\<close> and \<open>0\<close> both select the whole list.\<close>

definition accounts_to_process :: "pydict list \<Rightarrow> int option \<Rightarrow> pydict list" where
  "accounts_to_process accounts max_follows =
     (case max_follows of
        Some m \<Rightarrow> if m \<noteq> 0 then slice_to accounts m else accounts
      | None \<Rightarrow> accounts)"

record follow_summary =
  total_attempted :: nat
  sum_successful :: nat
  sum_already_following :: nat
  sum_failed :: nat
  sum_rate_limited :: nat
  rate_limited_stopped :: bool

record bulk_output =
  out_success :: bool
  out_results :: "follow_result list"
  out_summary :: follow_summary

definition initial_bulk_state :: bulk_state where
  "initial_bulk_state =
     \<lparr>results = [], successful = 0, failed = 0, already_following = 0, rate_limited = 0\<rparr>"

text \<open>\<open>BlueskyFollower.follow_bulk\<close>, for a follower whose delay is \<open>delay\<close>.\<close>

definition follow_bulk ::
  "remote \<Rightarrow> int \<Rightarrow> pydict list \<Rightarrow> int option \<Rightarrow> world \<Rightarrow> (exn + bulk_output) \<times> world" where
  "follow_bulk env delay accounts max_follows w =
     (let to_process = accounts_to_process accounts max_follows;
          total_n = length to_process
      in case follow_loop env delay total_n 1 to_process initial_bulk_state w of
           (Inl e, w1) \<Rightarrow> (Inl e, w1)
         | (Inr st, w1) \<Rightarrow>
             (Inr \<lparr>out_success = True,
                   out_results = results st,
                   out_summary =
                     \<lparr>total_attempted = length (results st),
                      sum_successful = successful st,
                      sum_already_following = already_following st,
                      sum_failed = failed st,
                      sum_rate_limited = rate_limited st,
                      rate_limited_stopped = (rate_limited st > 0)\<rparr>\<rparr>, w1))"

text \<open>How a result dictionary reads: the three failure classes of the summary.\<close>

definition is_already_following :: "follow_result \<Rightarrow> bool" where
  "is_already_following r = (\<not> r_success r \<and> r_error r = Some ''Already following'')"

definition is_rate_limited :: "follow_result \<Rightarrow> bool" where
  "is_rate_limited r = (\<not> r_success r \<and> r_error r = Some ''Rate limited'')"

definition is_failed :: "follow_result \<Rightarrow> bool" where
  "is_failed r =
     (\<not> r_success r \<and> r_error r \<noteq> Some ''Already following''
        \<and> r_error r \<noteq> Some ''Rate limited'')"

text \<open>The \<open>did\<close> a result dictionary carries for an account: the identifier that was
  followed, or \<open>None\<close> for an account without one.\<close>

definition result_did :: "pydict \<Rightarrow> pyval" where
  "result_did account = (if truthy (account_did account) then account_did account else PNone)"

section \<open>The scraper\<close>

text \<open>The dictionary \<open>scrape_keyword\<close> builds for one actor.\<close>

record account =
  acc_did :: string
  acc_handle :: string
  acc_displayName :: pyval
  acc_description :: pyval
  acc_avatar :: pyval
  acc_followersCount :: pyval
  acc_profileUrl :: string
  acc_keyword :: string
  acc_scrapedAt :: string

text \<open>The fields of a \<open>BlueskyScraper\<close> object (the client is the \<^typ>\<open>remote\<close>).\<close>

record scraper =
  max_pages :: int
  scraper_delay :: int
  seen_dids :: "string set"

text \<open>\<open>getattr(obj, name, default)\<close> on an attribute that may be missing.\<close>

definition getattr_default :: "pyval option \<Rightarrow> pyval \<Rightarrow> pyval" where
  "getattr_default attr dflt = (case attr of Some v \<Rightarrow> v | None \<Rightarrow> dflt)"

definition make_account :: "string \<Rightarrow> actor \<Rightarrow> string \<Rightarrow> account" where
  "make_account keyword a ts =
     \<lparr>acc_did = actor_did a,
      acc_handle = actor_handle a,
      acc_displayName = getattr_default (actor_display_name a) (PStr ''N/A''),
      acc_description = getattr_default (actor_description a) (PStr ''N/A''),
      acc_avatar = getattr_default (actor_avatar a) (PStr []),
      acc_followersCount = getattr_default (actor_followers_count a) (PInt 0),
      acc_profileUrl = ''https://bsky.app/profile/'' @ actor_handle a,
      acc_keyword = keyword,
      acc_scrapedAt = ts\<rparr>"

text \<open>The inner \<open>for actor in actors\<close> loop: one clock reading and one append per actor.\<close>

fun collect_actors ::
  "remote \<Rightarrow> string \<Rightarrow> actor list \<Rightarrow> account list \<Rightarrow> world \<Rightarrow> account list \<times> world" where
  "collect_actors env keyword [] all_accounts w = (all_accounts, w)"
| "collect_actors env keyword (a # actors) all_accounts w =
     (case now env w of
        (ts, w1) \<Rightarrow>
          collect_actors env keyword actors (all_accounts @ [make_account keyword a ts]) w1)"

text \<open>The truth test of a cursor: \<open>None\<close> and the empty string are falsy.\<close>

definition cursor_truthy :: "string option \<Rightarrow> bool" where
  "cursor_truthy c = (case c of Some s \<Rightarrow> s \<noteq> [] | None \<Rightarrow> False)"

text \<open>
  The \<open>while page < self.max_pages\<close> loop of \<open>scrape_keyword\<close>, with the loop variables
  \<open>all_accounts\<close>, \<open>cursor\<close> and \<open>page\<close> as arguments.  The three \<open>break\<close>s return at
  once; the \<open>except\<close> clause, which breaks too, is the \<open>Inl\<close> branch of the search and
  of the pause, both being inside the \<open>try\<close>.
\<close>

function scrape_loop ::
  "remote \<Rightarrow> int \<Rightarrow> int \<Rightarrow> string \<Rightarrow> account list \<Rightarrow> string option \<Rightarrow> int \<Rightarrow> world
     \<Rightarrow> account list \<times> int \<times> world" where
  "scrape_loop env maxp delay keyword all_accounts cursor page w =
     (if page < maxp then
        (let params = \<lparr>param_q = keyword, param_limit = 100,
                       param_cursor = (if cursor_truthy cursor then cursor else None)\<rparr>
         in case do_search env params w of
              (Inl e, w1) \<Rightarrow> (all_accounts, page, w1)
            | (Inr response, w1) \<Rightarrow>
                (let actors = (case resp_actors response of Some acts \<Rightarrow> acts | None \<Rightarrow> [])
                 in if actors = [] then (all_accounts, page, w1)
                    else
                      (case collect_actors env keyword actors all_accounts w1 of
                         (all1, w2) \<Rightarrow>
                           (let page1 = page + 1;
                                cursor1 = resp_cursor response
                            in if \<not> cursor_truthy cursor1 then (all1, page1, w2)
                               else if page1 < maxp then
                                 (case sleep env delay w2 of
                                    Inl e \<Rightarrow> (all1, page1, w2)
                                  | Inr w3 \<Rightarrow>
                                      scrape_loop env maxp delay keyword all1 cursor1 page1 w3)
                               else scrape_loop env maxp delay keyword all1 cursor1 page1 w2))))
      else (all_accounts, page, w))"
  by pat_completeness auto
termination
  by (relation "measure (\<lambda>(env, maxp, delay, keyword, all_accounts, cursor, page, w).
                  nat (maxp - page))") auto

text \<open>The defining equation is recursive under a condition only; it is applied on demand.\<close>

declare scrape_loop.simps [simp del]

text \<open>\<open>BlueskyScraper.scrape_keyword\<close>.\<close>

definition scrape_keyword ::
  "remote \<Rightarrow> scraper \<Rightarrow> string \<Rightarrow> world \<Rightarrow> account list \<times> world" where
  "scrape_keyword env sc keyword w =
     (case scrape_loop env (max_pages sc) (scraper_delay sc) keyword [] None 0 w of
        (all_accounts, page, w1) \<Rightarrow> (all_accounts, w1))"

text \<open>The loop of \<open>scrape_multiple_keywords\<close> over \<open>enumerate(keywords, 1)\<close>; \<open>n\<close> is
  \<open>len(keywords)\<close>.  The pause between two keywords is outside any \<open>try\<close>: an
  exception of \<open>time.sleep\<close> leaves the loop and the function.\<close>

fun keywords_loop ::
  "remote \<Rightarrow> scraper \<Rightarrow> nat \<Rightarrow> nat \<Rightarrow> string list \<Rightarrow> account list \<Rightarrow> world
     \<Rightarrow> (exn + account list) \<times> world" where
  "keywords_loop env sc n i [] all_accounts w = (Inr all_accounts, w)"
| "keywords_loop env sc n i (keyword # rest) all_accounts w =
     (case scrape_keyword env sc keyword w of
        (accounts, w1) \<Rightarrow>
          if i < n then
            (case sleep env (scraper_delay sc) w1 of
               Inl e \<Rightarrow> (Inl e, w1)
             | Inr w2 \<Rightarrow> keywords_loop env sc n (i + 1) rest (all_accounts @ accounts) w2)
          else keywords_loop env sc n (i + 1) rest (all_accounts @ accounts) w1)"

definition scrape_multiple_keywords ::
  "remote \<Rightarrow> scraper \<Rightarrow> string list \<Rightarrow> world \<Rightarrow> (exn + account list) \<times> world" where
  "scrape_multiple_keywords env sc keywords w =
     keywords_loop env sc (length keywords) 1 keywords [] w"

text \<open>The loop of \<open>deduplicate\<close>, on the list \<open>unique_accounts\<close> and the seen-set.\<close>

fun dedup_loop ::
  "account list \<Rightarrow> account list \<Rightarrow> string set \<Rightarrow> account list \<times> string set" where
  "dedup_loop [] unique_accounts seen = (unique_accounts, seen)"
| "dedup_loop (a # rest) unique_accounts seen =
     (if acc_did a \<notin> seen
      then dedup_loop rest (unique_accounts @ [a]) (insert (acc_did a) seen)
      else dedup_loop rest unique_accounts seen)"

text \<open>
  \<open>BlueskyScraper.deduplicate\<close>.  The method updates \<open>self.seen_dids\<close>, so the scraper is
  returned with the list.  The argument \<open>seen_dids\<close> is optional; \<open>None\<close> and the empty
  list are both skipped by \<open>if seen_dids\<close>.
\<close>

definition deduplicate ::
  "scraper \<Rightarrow> account list \<Rightarrow> string list option \<Rightarrow> account list \<times> scraper" where
  "deduplicate sc accounts seen_arg =
     (let seen0 = (case seen_arg of
                     Some ds \<Rightarrow> if ds \<noteq> [] then seen_dids sc \<union> set ds else seen_dids sc
                   | None \<Rightarrow> seen_dids sc)
      in case dedup_loop accounts [] seen0 of
           (unique_accounts, seen1) \<Rightarrow> (unique_accounts, sc\<lparr>seen_dids := seen1\<rparr>))"

section \<open>Vocabulary of the statements\<close>

text \<open>
  What the result dictionary of one account must look like: it carries the identifier
  and handle taken from the account; an account without identifier gets exactly the
  "No DID provided" dictionary, which is the only one without a timestamp.
\<close>

definition result_of_account :: "pydict \<Rightarrow> follow_result \<Rightarrow> bool" where
  "result_of_account account r =
     (r_did r = result_did account \<and> r_handle r = account_handle account
      \<and> (r_timestamp r = None \<longleftrightarrow> \<not> truthy (account_did account))
      \<and> (\<not> truthy (account_did account) \<longrightarrow> r = no_did_result (account_handle account)))"

text \<open>
  What holds when the loop of \<open>follow_bulk\<close> has returned the state \<open>st1\<close> from the
  state \<open>st\<close> with the results \<open>new\<close>: they are the results of a prefix of the accounts,
  the counters have grown by the numbers of results in each class, a rate-limited result
  is the last one, and a run that stops before the end of the list has stopped on a
  rate-limited result.
\<close>

definition loop_returned ::
  "pydict list \<Rightarrow> bulk_state \<Rightarrow> bulk_state \<Rightarrow> follow_result list \<Rightarrow> bool" where
  "loop_returned accounts st st1 new =
     (results st1 = results st @ new
    \<and> length new \<le> length accounts
    \<and> list_all2 result_of_account (take (length new) accounts) new
    \<and> successful st1 = successful st + length (filter r_success new)
    \<and> already_following st1 = already_following st + length (filter is_already_following new)
    \<and> rate_limited st1 = rate_limited st + length (filter is_rate_limited new)
    \<and> failed st1 = failed st + length (filter is_failed new)
    \<and> filter is_rate_limited (butlast new) = []
    \<and> (length new < length accounts \<longrightarrow> new \<noteq> [] \<and> is_rate_limited (last new)))"

text \<open>The delays \<open>time.sleep\<close> accepts: then the pause is taken and nothing is raised.\<close>

definition pause_ok :: "remote \<Rightarrow> int \<Rightarrow> bool" where
  "pause_ok env d = (0 \<le> d \<and> sleep_error env d = None)"

section \<open>Concrete inputs\<close>

text \<open>A world in which nothing has happened yet.\<close>

definition w0 :: world where
  "w0 = \<lparr>follow_calls = [], search_log = [], clock_reads = 0, slept = []\<rparr>"

text \<open>
  A remote service for the examples.  Following \<open>did:plc:b\<close> hits the rate limit,
  \<open>did:plc:d\<close> is followed already, \<open>did:plc:e\<close> fails for another reason and every
  other identifier succeeds.  The search answers by request number: two pages with a
  cursor, then an error, then a last page without cursor.  Pauses longer than a 64-bit
  nanosecond clock can count raise \<open>OverflowError\<close>.
\<close>

definition demo_actor :: "string \<Rightarrow> actor" where
  "demo_actor d =
     \<lparr>actor_did = d, actor_handle = d @ ''.bsky.social'', actor_display_name = None,
      actor_description = Some PNone, actor_avatar = None,
      actor_followers_count = Some (PInt 7)\<rparr>"

definition demo_env :: remote where
  "demo_env =
     \<lparr>client_follow = (\<lambda>n d.
        if d = PStr ''did:plc:b'' then Inl (Exception ''HTTP 429: Rate Limit Exceeded'')
        else if d = PStr ''did:plc:d'' then Inl (Exception ''Already Following this actor'')
        else if d = PStr ''did:plc:e'' then Inl (Exception ''Connection reset'')
        else Inr (FollowResponse (Some (PStr ''at://follow'')))),
      search_actors = (\<lambda>n p.
        if n = 0 then Inr \<lparr>resp_actors = Some [demo_actor ''a1'', demo_actor ''a2''],
                            resp_cursor = Some ''c1''\<rparr>
        else if n = 1 then Inr \<lparr>resp_actors = Some [demo_actor ''a3''],
                                 resp_cursor = Some ''c2''\<rparr>
        else if n = 2 then Inl (Exception ''timeout'')
        else Inr \<lparr>resp_actors = Some [demo_actor ''a4''], resp_cursor = None\<rparr>),
      now_iso = (\<lambda>n. ''2024-01-01T00:00:00''),
      sleep_error = (\<lambda>d.
        if 9223372036 < d
        then Some (Exception ''timestamp too large to convert to C _PyTime_t'')
        else None)\<rparr>"

text \<open>A remote service whose follow call fails with a message that matches both patterns.\<close>

definition both_env :: remote where
  "both_env =
     \<lparr>client_follow =
        (\<lambda>n d. Inl (Exception ''Rate Limit reached; Already Following did:plc:a'')),
      search_actors = (\<lambda>n p. Inl (Exception [])),
      now_iso = (\<lambda>n. ''2024-01-01T00:00:00''),
      sleep_error = (\<lambda>d. None)\<rparr>"

definition acct_a :: pydict where
  "acct_a = [''did'' \<mapsto> PStr ''did:plc:a'', ''handle'' \<mapsto> PStr ''a.bsky.social'']"

text \<open>An account whose \<open>did\<close> is the empty string and whose identifier is under \<open>DID\<close>.\<close>

definition acct_b :: pydict where
  "acct_b = [''did'' \<mapsto> PStr [], ''DID'' \<mapsto> PStr ''did:plc:b'']"

definition acct_c :: pydict where
  "acct_c = [''did'' \<mapsto> PStr ''did:plc:c'']"

definition acct_d :: pydict where
  "acct_d = [''DID'' \<mapsto> PStr ''did:plc:d'', ''Handle'' \<mapsto> PStr ''d.bsky.social'']"

definition acct_e :: pydict where
  "acct_e = [''did'' \<mapsto> PStr ''did:plc:e'']"

text \<open>An account without identifier: \<open>did\<close> is the empty string and \<open>DID\<close> is missing.\<close>

definition acct_blank :: pydict where
  "acct_blank = [''did'' \<mapsto> PStr [], ''handle'' \<mapsto> PStr ''nobody.bsky.social'']"

text \<open>An account that has a handle and no identifier under either key.\<close>

definition acct_no_did :: pydict where
  "acct_no_did = [''handle'' \<mapsto> PStr ''nobody.bsky.social'']"

text \<open>Scraped accounts and scrapers for the examples.\<close>

definition demo_account :: "string \<Rightarrow> account" where
  "demo_account d = make_account ''ai'' (demo_actor d) ''2024-01-01T00:00:00''"

definition fresh_scraper :: scraper where
  "fresh_scraper = \<lparr>max_pages = 5, scraper_delay = 2, seen_dids = {}\<rparr>"

definition used_scraper :: scraper where
  "used_scraper = \<lparr>max_pages = 5, scraper_delay = 2, seen_dids = {''a3''}\<rparr>"

text \<open>
  Reading the search log.  An entry is a request with its outcome.  \<open>page_actors\<close> is
  the page the entry delivered (nothing when the call raised or the response had no
  actors), \<open>raised\<close> says that the call raised, and \<open>continues\<close> that the entry was a
  non-empty page with a usable cursor, the only outcome after which \<open>scrape_keyword\<close>
  looks at the page cap again.
\<close>

type_synonym exchange = "search_params \<times> (exn + search_response)"

definition page_actors :: "exchange \<Rightarrow> actor list" where
  "page_actors x =
     (case snd x of
        Inl e \<Rightarrow> []
      | Inr response \<Rightarrow> (case resp_actors response of Some acts \<Rightarrow> acts | None \<Rightarrow> []))"

definition raised :: "exchange \<Rightarrow> bool" where
  "raised x = (case snd x of Inl e \<Rightarrow> True | Inr response \<Rightarrow> False)"

definition continues :: "exchange \<Rightarrow> bool" where
  "continues x =
     (case snd x of
        Inl e \<Rightarrow> False
      | Inr response \<Rightarrow> page_actors x \<noteq> [] \<and> cursor_truthy (resp_cursor response))"

text \<open>An account without its capture time, and the accounts of a log entry in that
  form: one per actor of the page, under the keyword of the request.\<close>

definition strip_ts :: "account \<Rightarrow> account" where
  "strip_ts a = a\<lparr>acc_scrapedAt := []\<rparr>"

definition page_accounts :: "exchange \<Rightarrow> account list" where
  "page_accounts x = map (\<lambda>a. make_account (param_q (fst x)) a []) (page_actors x)"

text \<open>The request \<open>scrape_keyword\<close> sends when its loop variable \<open>cursor\<close> has the
  given value; the first request of a keyword has no cursor.\<close>

definition request :: "string \<Rightarrow> string option \<Rightarrow> search_params" where
  "request keyword cursor =
     \<lparr>param_q = keyword, param_limit = 100,
      param_cursor = (if cursor_truthy cursor then cursor else None)\<rparr>"


definition one_page_scraper :: scraper where
  "one_page_scraper = \<lparr>max_pages = 1, scraper_delay = 2, seen_dids = {}\<rparr>"

definition two_page_scraper :: scraper where
  "two_page_scraper = \<lparr>max_pages = 2, scraper_delay = 2, seen_dids = {}\<rparr>"

text \<open>A scraper built from a request whose \<open>delay\<close> is \<open>-1\<close>.\<close>

definition negative_delay_scraper :: scraper where
  "negative_delay_scraper = \<lparr>max_pages = 5, scraper_delay = - 1, seen_dids = {}\<rparr>"

section \<open>String facts behind the two classifications\<close>

text \<open>
  \<open>follow_user\<close> matches lower-case patterns against the lowered message, while
  \<open>follow_bulk\<close> matches capitalised patterns against the error text of the result.
  A raw message that reaches the last branch of \<open>follow_user\<close> cannot contain either
  capitalised pattern, so both functions agree on the class of every result.
\<close>

lemma lower_sublist: "sublist p s \<Longrightarrow> sublist (lower p) (lower s)"
  unfolding lower_def by (rule map_mono_sublist)

lemma lower_already_following: "lower ''Already following'' = ''already following''"
  by (simp add: lower_def lower_char_def)

lemma lower_rate_limited: "lower ''Rate limited'' = ''rate limited''"
  by (simp add: lower_def lower_char_def)

lemma rate_limit_in_rate_limited: "sublist ''rate limit'' ''rate limited''"
  by (simp add: sublist_Cons_right)

lemma cased_already_following:
  "sublist ''Already following'' s \<Longrightarrow> sublist ''already following'' (lower s)"
  using lower_sublist [of "''Already following''" s] by (simp only: lower_already_following)

lemma cased_rate_limited:
  "sublist ''Rate limited'' s \<Longrightarrow> sublist ''rate limit'' (lower s)"
proof -
  assume "sublist ''Rate limited'' s"
  then have "sublist ''rate limited'' (lower s)"
    using lower_sublist [of "''Rate limited''" s] by (simp only: lower_rate_limited)
  with rate_limit_in_rate_limited show ?thesis
    by (rule sublist_order.order.trans)
qed

lemma not_af_in_rl: "\<not> sublist ''Already following'' ''Rate limited''"
  by (simp add: sublist_Cons_right)

text \<open>
  \<open>contains_ci\<close> is substring matching up to letter case: the text has a contiguous
  piece that equals the pattern once both are lowered.
\<close>

lemma sublist_map_iff:
  "sublist xs (map f ys) \<longleftrightarrow> (\<exists>a b c. ys = a @ b @ c \<and> map f b = xs)"
proof
  assume "sublist xs (map f ys)"
  then obtain ps ss where "map f ys = ps @ xs @ ss"
    by (auto simp: sublist_def)
  then obtain a bc where 1: "ys = a @ bc" "xs @ ss = map f bc"
    unfolding map_eq_append_conv by blast
  from 1(2) obtain b c where "bc = b @ c" "xs = map f b"
    unfolding append_eq_map_conv by blast
  with 1 show "\<exists>a b c. ys = a @ b @ c \<and> map f b = xs"
    by blast
next
  assume "\<exists>a b c. ys = a @ b @ c \<and> map f b = xs"
  then obtain a b c where "ys = a @ b @ c" "map f b = xs"
    by blast
  then have "map f ys = map f a @ xs @ map f c"
    by simp
  then show "sublist xs (map f ys)"
    unfolding sublist_def by blast
qed

lemma contains_ci_iff:
  "contains_ci p s \<longleftrightarrow> (\<exists>a b c. s = a @ b @ c \<and> lower b = lower p)"
  unfolding contains_ci_def lower_def by (rule sublist_map_iff)

lemma lower_patterns:
  "lower ''already following'' = ''already following''"
  "lower ''rate limit'' = ''rate limit''"
  by (simp_all add: lower_def lower_char_def)

section \<open>The follower: what every run satisfies\<close>

lemma follow_user_returns:
  "\<exists>r. follow_user env did handle w =
          (Inr r, w\<lparr>follow_calls := follow_calls w @ [did], clock_reads := Suc (clock_reads w)\<rparr>)
       \<and> r_did r = did \<and> r_handle r = handle
       \<and> r_timestamp r = Some (now_iso env (clock_reads w))
       \<and> (r_success r \<or> is_already_following r \<or> is_rate_limited r
            \<or> (\<exists>m. \<not> r_success r \<and> r_error r = Some m
                  \<and> \<not> sublist ''already following'' (lower m)
                  \<and> \<not> sublist ''rate limit'' (lower m)))"
  by (cases "client_follow env (length (follow_calls w)) did")
     (auto simp: follow_user_def do_follow_def now_def is_already_following_def
        is_rate_limited_def split: exn.splits)


lemma sleep_ok: "pause_ok env d \<Longrightarrow> sleep env d w = Inr (w\<lparr>slept := slept w @ [d]\<rparr>)"
  by (simp add: sleep_def pause_ok_def)

lemma sleep_fails: "\<not> pause_ok env d \<Longrightarrow> \<exists>e. sleep env d w = Inl e"
  by (auto simp: sleep_def pause_ok_def split: option.splits)

text \<open>
  One iteration: the result \<open>r\<close> of the account, the state \<open>st1\<close> that records it and the
  loop control are determined by the remote call.  The iteration hands them on unless
  it needs a pause that \<open>time.sleep\<close> refuses, in which case it raises.
\<close>

lemma follow_body_returns:
  "\<exists>ctl st1 w1 r.
      (if r_success r \<and> i < total_n \<and> \<not> pause_ok env delay
       then (\<exists>e. follow_body env delay total_n i account st w = (Inl e, w1))
       else follow_body env delay total_n i account st w = (Inr (ctl, st1), w1))
    \<and> results st1 = results st @ [r]
    \<and> result_of_account account r
    \<and> successful st1 = successful st + (if r_success r then 1 else 0)
    \<and> already_following st1 = already_following st + (if is_already_following r then 1 else 0)
    \<and> rate_limited st1 = rate_limited st + (if is_rate_limited r then 1 else 0)
    \<and> failed st1 = failed st + (if is_failed r then 1 else 0)
    \<and> (ctl = Break \<longleftrightarrow> is_rate_limited r)
    \<and> follow_calls w1 =
          follow_calls w @ (if truthy (account_did account) then [account_did account] else [])"
proof (cases "truthy (account_did account)")
  case False
  then show ?thesis
    by (intro exI [of _ Continue] exI [of _ w]
          exI [of _ "no_did_result (account_handle account)"]
          exI [of _ "st\<lparr>results := results st @ [no_did_result (account_handle account)],
                      failed := failed st + 1\<rparr>"])
       (simp add: follow_body_def Let_def no_did_result_def result_did_def
          is_already_following_def is_rate_limited_def is_failed_def result_of_account_def)
next
  case True
  obtain r where r:
    "follow_user env (account_did account) (account_handle account) w =
       (Inr r, w\<lparr>follow_calls := follow_calls w @ [account_did account],
                 clock_reads := Suc (clock_reads w)\<rparr>)"
    "r_did r = account_did account" "r_handle r = account_handle account"
    "r_timestamp r = Some (now_iso env (clock_reads w))"
    "r_success r \<or> is_already_following r \<or> is_rate_limited r
       \<or> (\<exists>m. \<not> r_success r \<and> r_error r = Some m
             \<and> \<not> sublist ''already following'' (lower m)
             \<and> \<not> sublist ''rate limit'' (lower m))"
    using follow_user_returns [of env "account_did account" "account_handle account" w]
    by blast
  define w1 where "w1 = w\<lparr>follow_calls := follow_calls w @ [account_did account],
                          clock_reads := Suc (clock_reads w)\<rparr>"
  from r(5) consider (ok) "r_success r"
    | (af) "\<not> r_success r" "r_error r = Some ''Already following''"
    | (rl) "\<not> r_success r" "r_error r = Some ''Rate limited''"
    | (other) m where "\<not> r_success r" "r_error r = Some m"
        "\<not> sublist ''Already following'' m" "\<not> sublist ''Rate limited'' m"
        "m \<noteq> ''Already following''" "m \<noteq> ''Rate limited''"
    using cased_already_following cased_rate_limited
    by (auto simp: is_already_following_def is_rate_limited_def)
  then show ?thesis
  proof cases
    case ok
    let ?st1 = "st\<lparr>results := results st @ [r], successful := successful st + 1\<rparr>"
    have facts: "results ?st1 = results st @ [r]" "result_of_account account r"
      "successful ?st1 = successful st + (if r_success r then 1 else 0)"
      "already_following ?st1
         = already_following st + (if is_already_following r then 1 else 0)"
      "rate_limited ?st1 = rate_limited st + (if is_rate_limited r then 1 else 0)"
      "failed ?st1 = failed st + (if is_failed r then 1 else 0)"
      "Continue = Break \<longleftrightarrow> is_rate_limited r"
      using ok True r(2-4)
      by (simp_all add: result_did_def is_already_following_def is_rate_limited_def
            is_failed_def result_of_account_def)
    show ?thesis
    proof (cases "i < total_n")
      case False
      with ok True r(1) have "follow_body env delay total_n i account st w
          = (Inr (Continue, ?st1), w1)"
        by (simp add: follow_body_def Let_def w1_def)
      with False facts True show ?thesis
        by (intro exI [of _ Continue] exI [of _ ?st1] exI [of _ w1] exI [of _ r])
           (simp add: w1_def)
    next
      case lt: True
      show ?thesis
      proof (cases "pause_ok env delay")
        case True
        with ok lt \<open>truthy (account_did account)\<close> r(1)
        have "follow_body env delay total_n i account st w
            = (Inr (Continue, ?st1), w1\<lparr>slept := slept w1 @ [delay]\<rparr>)"
          by (simp add: follow_body_def Let_def w1_def sleep_ok)
        with True facts \<open>truthy (account_did account)\<close> show ?thesis
          by (intro exI [of _ Continue] exI [of _ ?st1]
                exI [of _ "w1\<lparr>slept := slept w1 @ [delay]\<rparr>"] exI [of _ r])
             (simp add: w1_def)
      next
        case False
        then obtain e where "sleep env delay w1 = Inl e"
          using sleep_fails by blast
        with ok lt \<open>truthy (account_did account)\<close> r(1)
        have "follow_body env delay total_n i account st w = (Inl e, w1)"
          by (simp add: follow_body_def Let_def w1_def)
        with False ok lt facts \<open>truthy (account_did account)\<close> show ?thesis
          by (intro exI [of _ Continue] exI [of _ ?st1] exI [of _ w1] exI [of _ r])
             (simp add: w1_def)
      qed
    qed
  next
    case af
    with True r(1-4) show ?thesis
      by (intro exI [of _ Continue] exI [of _ w1] exI [of _ r]
            exI [of _ "st\<lparr>results := results st @ [r],
                        already_following := already_following st + 1\<rparr>"])
         (simp add: follow_body_def Let_def result_did_def w1_def
            is_already_following_def is_rate_limited_def is_failed_def result_of_account_def)
  next
    case rl
    with True r(1-4) not_af_in_rl show ?thesis
      by (intro exI [of _ Break] exI [of _ w1] exI [of _ r]
            exI [of _ "st\<lparr>results := results st @ [r],
                        rate_limited := rate_limited st + 1\<rparr>"])
         (simp add: follow_body_def Let_def result_did_def w1_def
            is_already_following_def is_rate_limited_def is_failed_def result_of_account_def)
  next
    case other
    with True r(1-4) show ?thesis
      by (intro exI [of _ Continue] exI [of _ w1] exI [of _ r]
            exI [of _ "st\<lparr>results := results st @ [r], failed := failed st + 1\<rparr>"])
         (simp add: follow_body_def Let_def result_did_def w1_def
            is_already_following_def is_rate_limited_def is_failed_def result_of_account_def)
  qed
qed

text \<open>
  The loop.  Whatever the outcome, the remote calls are the identifiers of a prefix of the
  accounts.  An exception can only come from a refused pause.
\<close>

lemma loop_returned_Cons:
  assumes "results st1 = results st @ [r]" and "result_of_account a r"
    and "successful st1 = successful st + (if r_success r then 1 else 0)"
    and "already_following st1 = already_following st + (if is_already_following r then 1 else 0)"
    and "rate_limited st1 = rate_limited st + (if is_rate_limited r then 1 else 0)"
    and "failed st1 = failed st + (if is_failed r then 1 else 0)"
    and "\<not> is_rate_limited r"
    and "loop_returned rest st1 st2 new"
  shows "loop_returned (a # rest) st st2 (r # new)"
  using assms by (simp add: loop_returned_def)

lemma loop_returned_single:
  assumes "results st1 = results st @ [r]" and "result_of_account a r"
    and "successful st1 = successful st + (if r_success r then 1 else 0)"
    and "already_following st1 = already_following st + (if is_already_following r then 1 else 0)"
    and "rate_limited st1 = rate_limited st + (if is_rate_limited r then 1 else 0)"
    and "failed st1 = failed st + (if is_failed r then 1 else 0)"
    and "is_rate_limited r"
  shows "loop_returned (a # rest) st st1 [r]"
  using assms by (simp add: loop_returned_def)

lemma follow_loop_outcome:
  "\<exists>k res w1.
      follow_loop env delay total_n i accounts st w = (res, w1)
    \<and> k \<le> length accounts
    \<and> follow_calls w1 = follow_calls w @ filter truthy (map account_did (take k accounts))
    \<and> (case res of
          Inl e \<Rightarrow> \<not> pause_ok env delay
        | Inr st1 \<Rightarrow> \<exists>new. k = length new \<and> loop_returned accounts st st1 new)"
proof (induction accounts arbitrary: st w i)
  case Nil
  show ?case
    by (intro exI [of _ 0] exI [of _ "Inr st"] exI [of _ w]) (simp add: loop_returned_def)
next
  case (Cons account rest)
  obtain ctl st1 w1 r where body:
    "if r_success r \<and> i < total_n \<and> \<not> pause_ok env delay
       then (\<exists>e. follow_body env delay total_n i account st w = (Inl e, w1))
       else follow_body env delay total_n i account st w = (Inr (ctl, st1), w1)"
    and facts: "results st1 = results st @ [r]"
    "result_of_account account r"
    "successful st1 = successful st + (if r_success r then 1 else 0)"
    "already_following st1 = already_following st + (if is_already_following r then 1 else 0)"
    "rate_limited st1 = rate_limited st + (if is_rate_limited r then 1 else 0)"
    "failed st1 = failed st + (if is_failed r then 1 else 0)"
    and ctl: "ctl = Break \<longleftrightarrow> is_rate_limited r"
    and calls: "follow_calls w1 =
       follow_calls w @ (if truthy (account_did account) then [account_did account] else [])"
    using follow_body_returns [of i total_n env delay account st w] by blast
  show ?case
  proof (cases "r_success r \<and> i < total_n \<and> \<not> pause_ok env delay")
    case True
    with body obtain e where "follow_body env delay total_n i account st w = (Inl e, w1)"
      by auto
    with True calls show ?thesis
      by (intro exI [of _ "Suc 0"] exI [of _ "Inl e"] exI [of _ w1]) simp
  next
    case False
    with body have fb: "follow_body env delay total_n i account st w = (Inr (ctl, st1), w1)"
      by simp
    show ?thesis
    proof (cases ctl)
      case Break
      with ctl have "is_rate_limited r" by simp
      with facts have "loop_returned (account # rest) st st1 [r]"
        by (intro loop_returned_single)
      then have "\<exists>new. Suc 0 = length new \<and> loop_returned (account # rest) st st1 new"
        by (intro exI [of _ "[r]"]) simp
      with fb Break calls show ?thesis
        by (intro exI [of _ "Suc 0"] exI [of _ "Inr st1"] exI [of _ w1]) simp
    next
      case Continue
      with ctl have nrl: "\<not> is_rate_limited r" by simp
      obtain k res w2 where rest:
        "follow_loop env delay total_n (i + 1) rest st1 w1 = (res, w2)"
        "k \<le> length rest"
        "follow_calls w2 = follow_calls w1 @ filter truthy (map account_did (take k rest))"
        "case res of
           Inl e \<Rightarrow> \<not> pause_ok env delay
         | Inr st2 \<Rightarrow> \<exists>new. k = length new \<and> loop_returned rest st1 st2 new"
        using Cons.IH [of "i + 1" st1 w1] by blast
      have step: "follow_loop env delay total_n i (account # rest) st w = (res, w2)"
        using fb Continue rest(1) by simp
      have outcome: "case res of
           Inl e \<Rightarrow> \<not> pause_ok env delay
         | Inr st2 \<Rightarrow> \<exists>new. Suc k = length new \<and> loop_returned (account # rest) st st2 new"
      proof (cases res)
        case (Inl e)
        with rest(4) show ?thesis by simp
      next
        case (Inr st2)
        with rest(4) obtain new where "k = length new" "loop_returned rest st1 st2 new"
          by auto
        with facts nrl have "Suc k = length (r # new)
            \<and> loop_returned (account # rest) st st2 (r # new)"
          by (simp add: loop_returned_Cons)
        then have "\<exists>new. Suc k = length new \<and> loop_returned (account # rest) st st2 new"
          by (rule exI)
        with Inr show ?thesis by simp
      qed
      from step rest(2,3) calls outcome show ?thesis
        by (intro exI [of _ "Suc k"] exI [of _ res] exI [of _ w2]) simp
    qed
  qed
qed
text \<open>\<open>follow_bulk\<close>: the same facts for the function, read off the loop.\<close>

lemma follow_bulk_outcome:
  "\<exists>k res w1.
      follow_bulk env delay accounts max_follows w = (res, w1)
    \<and> k \<le> length (accounts_to_process accounts max_follows)
    \<and> follow_calls w1 = follow_calls w @ filter truthy (map account_did
          (take k (accounts_to_process accounts max_follows)))
    \<and> (case res of
          Inl e \<Rightarrow> \<not> pause_ok env delay
        | Inr out \<Rightarrow>
            k = length (out_results out)
          \<and> out_success out
          \<and> length (out_results out) \<le> length (accounts_to_process accounts max_follows)
          \<and> list_all2 result_of_account
               (take (length (out_results out)) (accounts_to_process accounts max_follows))
               (out_results out)
          \<and> total_attempted (out_summary out) = length (out_results out)
          \<and> sum_successful (out_summary out) = length (filter r_success (out_results out))
          \<and> sum_already_following (out_summary out)
               = length (filter is_already_following (out_results out))
          \<and> sum_rate_limited (out_summary out)
               = length (filter is_rate_limited (out_results out))
          \<and> sum_failed (out_summary out) = length (filter is_failed (out_results out))
          \<and> rate_limited_stopped (out_summary out)
               = (0 < length (filter is_rate_limited (out_results out)))
          \<and> filter is_rate_limited (butlast (out_results out)) = []
          \<and> (length (out_results out) < length (accounts_to_process accounts max_follows)
                \<longrightarrow> out_results out \<noteq> [] \<and> is_rate_limited (last (out_results out))))"
proof -
  define todo where "todo = accounts_to_process accounts max_follows"
  obtain k res w1 where loop:
    "follow_loop env delay (length todo) 1 todo initial_bulk_state w = (res, w1)"
    "k \<le> length todo"
    "follow_calls w1 = follow_calls w @ filter truthy (map account_did (take k todo))"
    "case res of
       Inl e \<Rightarrow> \<not> pause_ok env delay
     | Inr st1 \<Rightarrow> \<exists>new. k = length new \<and> loop_returned todo initial_bulk_state st1 new"
    using follow_loop_outcome [of env delay "length todo" 1 todo initial_bulk_state w]
    by blast
  show ?thesis
  proof (cases res)
    case (Inl e)
    with loop(1) have "follow_bulk env delay accounts max_follows w = (Inl e, w1)"
      by (simp add: follow_bulk_def Let_def todo_def)
    with Inl loop(2-4) show ?thesis
      unfolding todo_def [symmetric]
      by (intro exI [of _ k] exI [of _ "Inl e"] exI [of _ w1]) simp
  next
    case (Inr st1)
    with loop(4) obtain new where new: "k = length new"
      "loop_returned todo initial_bulk_state st1 new"
      by auto
    let ?out = "\<lparr>out_success = True, out_results = results st1,
          out_summary = \<lparr>total_attempted = length (results st1),
            sum_successful = successful st1,
            sum_already_following = already_following st1,
            sum_failed = failed st1,
            sum_rate_limited = rate_limited st1,
            rate_limited_stopped = (rate_limited st1 > 0)\<rparr>\<rparr>"
    from Inr loop(1) have "follow_bulk env delay accounts max_follows w = (Inr ?out, w1)"
      by (simp add: follow_bulk_def Let_def todo_def)
    with new loop(2,3) show ?thesis
      unfolding todo_def [symmetric]
      by (intro exI [of _ k] exI [of _ "Inr ?out"] exI [of _ w1])
         (simp add: loop_returned_def initial_bulk_state_def)
  qed
qed

lemma follow_bulk_total:
  assumes "pause_ok env delay"
  shows "\<exists>out w1. follow_bulk env delay accounts max_follows w = (Inr out, w1)"
proof -
  obtain res w1 where fb: "follow_bulk env delay accounts max_follows w = (res, w1)"
    by (cases "follow_bulk env delay accounts max_follows w")
  show ?thesis
  proof (cases res)
    case (Inl e)
    with fb assms follow_bulk_outcome [of env delay accounts max_follows w]
    show ?thesis by auto
  next
    case (Inr out)
    with fb show ?thesis by auto
  qed
qed

lemma follow_bulk_calls:
  "\<exists>k \<le> length (accounts_to_process accounts max_follows).
      follow_calls (snd (follow_bulk env delay accounts max_follows w))
        = follow_calls w @ filter truthy (map account_did
            (take k (accounts_to_process accounts max_follows)))"
  using follow_bulk_outcome [of env delay accounts max_follows w] by auto

lemma follow_bulk_returned:
  assumes "follow_bulk env delay accounts max_follows w = (Inr out, w1)"
  shows "length (out_results out) \<le> length (accounts_to_process accounts max_follows)"
    and "list_all2 result_of_account
         (take (length (out_results out)) (accounts_to_process accounts max_follows))
         (out_results out)"
    and "total_attempted (out_summary out) = length (out_results out)"
    and "sum_successful (out_summary out) = length (filter r_success (out_results out))"
    and "sum_already_following (out_summary out)
         = length (filter is_already_following (out_results out))"
    and "sum_rate_limited (out_summary out) = length (filter is_rate_limited (out_results out))"
    and "sum_failed (out_summary out) = length (filter is_failed (out_results out))"
    and "rate_limited_stopped (out_summary out)
         = (0 < length (filter is_rate_limited (out_results out)))"
    and "filter is_rate_limited (butlast (out_results out)) = []"
    and "length (out_results out) < length (accounts_to_process accounts max_follows)
          \<longrightarrow> out_results out \<noteq> [] \<and> is_rate_limited (last (out_results out))"
    and "follow_calls w1 =
          follow_calls w @ filter truthy (map account_did
            (take (length (out_results out)) (accounts_to_process accounts max_follows)))"
    and "out_success out"
  using follow_bulk_outcome [of env delay accounts max_follows w] assms
  by auto

lemma list_all2_map_eq:
  "list_all2 P xs ys \<Longrightarrow> (\<And>x y. P x y \<Longrightarrow> f y = g x) \<Longrightarrow> map f ys = map g xs"
  by (induction xs ys rule: list_all2_induct) auto





section \<open>The follower: claims\<close>

lemmas follow_eval =
  Let_def follow_bulk_def accounts_to_process_def slice_to_def initial_bulk_state_def
  follow_body_def follow_user_def do_follow_def now_def sleep_def pause_ok_def
  dict_get_def py_or_def
  account_did_def account_handle_def no_did_result_def result_did_def
  lower_def lower_char_def sublist_Cons_right
  is_rate_limited_def is_already_following_def is_failed_def
  demo_env_def w0_def acct_a_def acct_b_def acct_c_def acct_d_def acct_e_def
  acct_blank_def acct_no_did_def

text \<open>
  C4.  \<open>follow_user\<close> never raises: whatever the remote call does, a result dictionary
  comes back.  When the call returns, the result is a success.  When the call raises with
  message \<open>msg\<close>, the result is a failure whose error is "Already following" if \<open>msg\<close>
  contains "already following" in any letter case, else "Rate limited" if it contains
  "rate limit" in any letter case, else \<open>msg\<close> itself; the first match wins, so a message
  with both patterns is "Already following".
\<close>

theorem follow_user_never_raises:
  "\<exists>r w1. follow_user env did handle w = (Inr r, w1)
     \<and> r_did r = did \<and> r_handle r = handle \<and> r_timestamp r \<noteq> None
     \<and> (case client_follow env (length (follow_calls w)) did of
          Inr response \<Rightarrow> r_success r \<and> r_error r = None
        | Inl (Exception msg) \<Rightarrow>
            \<not> r_success r \<and>
            r_error r = Some (if contains_ci ''already following'' msg then ''Already following''
                              else if contains_ci ''rate limit'' msg then ''Rate limited''
                              else msg))"
  by (cases "client_follow env (length (follow_calls w)) did")
     (auto simp: follow_user_def do_follow_def now_def contains_ci_def lower_patterns
        split: exn.splits)

theorem follow_user_never_raises_witness:
  "fst (follow_user both_env (PStr ''did:plc:a'') PNone w0) =
     Inr \<lparr>r_did = PStr ''did:plc:a'', r_handle = PNone, r_success = False, r_uri = None,
          r_error = Some ''Already following'',
          r_timestamp = Some ''2024-01-01T00:00:00''\<rparr>
   \<and> contains_ci ''already following'' ''Rate Limit reached; Already Following did:plc:a''
   \<and> contains_ci ''rate limit'' ''Rate Limit reached; Already Following did:plc:a''"
  using follow_user_never_raises [of both_env "PStr ''did:plc:a''" PNone w0]
  by (simp add: both_env_def w0_def contains_ci_def lower_def lower_char_def sublist_Cons_right
        follow_user_def do_follow_def now_def)




lemma partition_length:
  assumes "\<And>x. (P1 x \<or> P2 x \<or> P3 x \<or> P4 x)"
    and "\<And>x. \<not> (P1 x \<and> P2 x)" and "\<And>x. \<not> (P1 x \<and> P3 x)" and "\<And>x. \<not> (P1 x \<and> P4 x)"
    and "\<And>x. \<not> (P2 x \<and> P3 x)" and "\<And>x. \<not> (P2 x \<and> P4 x)" and "\<And>x. \<not> (P3 x \<and> P4 x)"
  shows "length xs = length (filter P1 xs) + length (filter P2 xs)
           + length (filter P3 xs) + length (filter P4 xs)"
proof (induction xs)
  case Nil
  show ?case by simp
next
  case (Cons x xs)
  from assms [of x] Cons show ?case by auto
qed

lemma result_classes:
  "r_success r \<or> is_already_following r \<or> is_rate_limited r \<or> is_failed r"
  "\<not> (r_success r \<and> is_already_following r)"
  "\<not> (r_success r \<and> is_rate_limited r)"
  "\<not> (r_success r \<and> is_failed r)"
  "\<not> (is_already_following r \<and> is_rate_limited r)"
  "\<not> (is_already_following r \<and> is_failed r)"
  "\<not> (is_rate_limited r \<and> is_failed r)"
  by (auto simp: is_already_following_def is_rate_limited_def is_failed_def)

text \<open>
  C3.  The summary of \<open>follow_bulk\<close> is the count of its results: \<open>total_attempted\<close> is
  the length of the list, and the four counters are the numbers of successes, of
  "Already following" results, of "Rate limited" results and of the remaining failures
  (to which the "No DID provided" dictionaries belong).  Every result is in exactly one
  of the four classes, so the counters add up to \<open>total_attempted\<close>.  This holds of
  every summary \<open>follow_bulk\<close> returns, and it returns one for every delay that
  \<open>time.sleep\<close> accepts.
\<close>

theorem follow_bulk_summary_counts:
  "(pause_ok env delay
      \<longrightarrow> (\<exists>out w1. follow_bulk env delay accounts max_follows w = (Inr out, w1)))
   \<and> (\<forall>out w1.
        follow_bulk env delay accounts max_follows w = (Inr out, w1)
      \<longrightarrow> total_attempted (out_summary out) = length (out_results out)
        \<and> sum_successful (out_summary out) = length (filter r_success (out_results out))
        \<and> sum_already_following (out_summary out)
             = length (filter is_already_following (out_results out))
        \<and> sum_rate_limited (out_summary out)
             = length (filter is_rate_limited (out_results out))
        \<and> sum_failed (out_summary out) = length (filter is_failed (out_results out))
        \<and> (\<forall>r \<in> set (out_results out).
              (r_success r \<or> is_already_following r \<or> is_rate_limited r \<or> is_failed r)
              \<and> \<not> (r_success r \<and> is_already_following r)
              \<and> \<not> (r_success r \<and> is_rate_limited r)
              \<and> \<not> (r_success r \<and> is_failed r)
              \<and> \<not> (is_already_following r \<and> is_rate_limited r)
              \<and> \<not> (is_already_following r \<and> is_failed r)
              \<and> \<not> (is_rate_limited r \<and> is_failed r))
        \<and> total_attempted (out_summary out)
             = sum_successful (out_summary out) + sum_already_following (out_summary out)
               + sum_rate_limited (out_summary out) + sum_failed (out_summary out)
        \<and> (\<forall>k < length (out_results out).
              \<not> truthy (account_did (accounts_to_process accounts max_follows ! k))
              \<longrightarrow> is_failed (out_results out ! k)))"
proof (intro conjI allI impI)
  assume "pause_ok env delay"
  then show "\<exists>out w1. follow_bulk env delay accounts max_follows w = (Inr out, w1)"
    by (rule follow_bulk_total)
next
  fix out w1
  assume run: "follow_bulk env delay accounts max_follows w = (Inr out, w1)"
  note b = follow_bulk_returned [OF run]
  have total_n: "length (out_results out)
      = length (filter r_success (out_results out))
        + length (filter is_already_following (out_results out))
        + length (filter is_rate_limited (out_results out))
        + length (filter is_failed (out_results out))"
    by (rule partition_length) (rule result_classes)+
  show "total_attempted (out_summary out) = length (out_results out)"
    by (rule b(3))
  show "sum_successful (out_summary out) = length (filter r_success (out_results out))"
    by (rule b(4))
  show "sum_already_following (out_summary out)
      = length (filter is_already_following (out_results out))"
    by (rule b(5))
  show "sum_rate_limited (out_summary out) = length (filter is_rate_limited (out_results out))"
    by (rule b(6))
  show "sum_failed (out_summary out) = length (filter is_failed (out_results out))"
    by (rule b(7))
  show "\<forall>r \<in> set (out_results out).
              (r_success r \<or> is_already_following r \<or> is_rate_limited r \<or> is_failed r)
              \<and> \<not> (r_success r \<and> is_already_following r)
              \<and> \<not> (r_success r \<and> is_rate_limited r)
              \<and> \<not> (r_success r \<and> is_failed r)
              \<and> \<not> (is_already_following r \<and> is_rate_limited r)
              \<and> \<not> (is_already_following r \<and> is_failed r)
              \<and> \<not> (is_rate_limited r \<and> is_failed r)"
    using result_classes by blast
  show "total_attempted (out_summary out)
      = sum_successful (out_summary out) + sum_already_following (out_summary out)
        + sum_rate_limited (out_summary out) + sum_failed (out_summary out)"
    using total_n by (simp only: b(3-7))
  fix k
  assume "k < length (out_results out)"
    and nodid: "\<not> truthy (account_did (accounts_to_process accounts max_follows ! k))"
  with b(1,2) have "result_of_account
      (accounts_to_process accounts max_follows ! k) (out_results out ! k)"
    by (auto dest: list_all2_nthD2)
  with nodid show "is_failed (out_results out ! k)"
    by (simp add: result_of_account_def no_did_result_def is_failed_def)
qed

text \<open>A batch with one result of every kind, stopped by the rate limit before its
  last account.\<close>

theorem follow_bulk_summary_counts_witness:
  "pause_ok demo_env 5
   \<and> out_summary (projr (fst (follow_bulk demo_env 5
       [acct_a, acct_d, acct_blank, acct_e, acct_c, acct_b, acct_a] None w0))) =
     \<lparr>total_attempted = 6, sum_successful = 2, sum_already_following = 1,
      sum_failed = 2, sum_rate_limited = 1, rate_limited_stopped = True\<rparr>
   \<and> map r_error (out_results (projr (fst (follow_bulk demo_env 5
       [acct_a, acct_d, acct_blank, acct_e, acct_c, acct_b, acct_a] None w0)))) =
     [None, Some ''Already following'', Some ''No DID provided'', Some ''Connection reset'',
      None, Some ''Rate limited'']"
  using follow_bulk_summary_counts
    [of demo_env 5 "[acct_a, acct_d, acct_blank, acct_e, acct_c, acct_b, acct_a]" None w0]
  by (simp add: follow_eval)

text \<open>
  C6, as the code has it.  A positive \<open>max_follows\<close> makes \<open>follow_bulk\<close> run on the
  first \<open>max_follows\<close> accounts, in their order: at most that many results, each for the
  account at the same position of the input, and no remote call for a later account,
  whether the run returns or a refused pause ends it.
\<close>

theorem follow_bulk_max_follows_positive:
  "0 < m \<Longrightarrow>
     follow_bulk env delay accounts (Some m) w
       = follow_bulk env delay (take (nat m) accounts) None w
   \<and> (pause_ok env delay
        \<longrightarrow> (\<exists>out w1. follow_bulk env delay accounts (Some m) w = (Inr out, w1)))
   \<and> (\<forall>out w1.
         follow_bulk env delay accounts (Some m) w = (Inr out, w1)
       \<longrightarrow> length (out_results out) \<le> nat m
         \<and> length (out_results out) \<le> length accounts
         \<and> map r_did (out_results out)
              = map result_did (take (length (out_results out)) accounts)
         \<and> follow_calls w1
              = follow_calls w @ filter truthy (map account_did
                  (take (length (out_results out)) accounts)))
   \<and> (\<exists>k. k \<le> nat m \<and> k \<le> length accounts
         \<and> follow_calls (snd (follow_bulk env delay accounts (Some m) w))
              = follow_calls w @ filter truthy (map account_did (take k accounts)))"
proof -
  assume m: "0 < m"
  then have todo: "accounts_to_process accounts (Some m) = take (nat m) accounts"
    by (simp add: accounts_to_process_def slice_to_def)
  have same: "follow_bulk env delay accounts (Some m) w
      = follow_bulk env delay (take (nat m) accounts) None w"
    by (simp add: follow_bulk_def todo) (simp add: accounts_to_process_def)
  have total: "\<exists>out w1. follow_bulk env delay accounts (Some m) w = (Inr out, w1)"
    if "pause_ok env delay"
    using that by (rule follow_bulk_total)
  have returned: "length (out_results out) \<le> nat m
         \<and> length (out_results out) \<le> length accounts
         \<and> map r_did (out_results out)
              = map result_did (take (length (out_results out)) accounts)
         \<and> follow_calls w1
              = follow_calls w @ filter truthy (map account_did
                  (take (length (out_results out)) accounts))"
    if run: "follow_bulk env delay accounts (Some m) w = (Inr out, w1)" for out w1
  proof -
    note b = follow_bulk_returned [OF run, unfolded todo]
    from b(1) have le: "length (out_results out) \<le> nat m"
      "length (out_results out) \<le> length accounts"
      by simp_all
    then have prefix: "take (length (out_results out)) (take (nat m) accounts)
        = take (length (out_results out)) accounts"
      by (simp add: min_def)
    have dids: "map r_did (out_results out)
        = map result_did (take (length (out_results out)) accounts)"
      using b(2) unfolding prefix by (rule list_all2_map_eq) (simp add: result_of_account_def)
    from le dids b(11) show ?thesis
      unfolding prefix by simp
  qed
  have calls: "\<exists>k. k \<le> nat m \<and> k \<le> length accounts
         \<and> follow_calls (snd (follow_bulk env delay accounts (Some m) w))
              = follow_calls w @ filter truthy (map account_did (take k accounts))"
  proof -
    obtain k where k: "k \<le> length (take (nat m) accounts)"
      "follow_calls (snd (follow_bulk env delay accounts (Some m) w))
         = follow_calls w @ filter truthy (map account_did (take k (take (nat m) accounts)))"
      using follow_bulk_calls [of accounts "Some m" env delay w] unfolding todo by blast
    from k(1) have le: "k \<le> nat m" "k \<le> length accounts"
      by simp_all
    then have "take k (take (nat m) accounts) = take k accounts"
      by (simp add: min_def)
    with k(2) le show ?thesis
      by (intro exI [of _ k]) simp
  qed
  from same total returned calls show ?thesis
    by blast
qed

text \<open>Five accounts that would all succeed, with \<open>max_follows = 2\<close>.\<close>

theorem follow_bulk_max_follows_positive_witness:
  "(0::int) < 2
   \<and> pause_ok demo_env 5
   \<and> map r_did (out_results (projr (fst (follow_bulk demo_env 5
        [acct_a, acct_c, acct_a, acct_c, acct_a] (Some 2) w0))))
      = [PStr ''did:plc:a'', PStr ''did:plc:c'']
   \<and> follow_calls (snd (follow_bulk demo_env 5
        [acct_a, acct_c, acct_a, acct_c, acct_a] (Some 2) w0))
      = [PStr ''did:plc:a'', PStr ''did:plc:c'']"
proof -
  have ev: "follow_bulk demo_env 5 [acct_a, acct_c, acct_a, acct_c, acct_a] (Some 2) w0
      = follow_bulk demo_env 5 [acct_a, acct_c] None w0"
    using follow_bulk_max_follows_positive
      [of 2 demo_env 5 "[acct_a, acct_c, acct_a, acct_c, acct_a]" w0]
    by simp
  show ?thesis
    unfolding ev by (simp add: follow_eval)
qed

text \<open>
  The claim C6 as stated fails for \<open>max_follows = 0\<close>: the value is provided, the first
  zero entries are no entries, and yet both accounts are followed.
\<close>

theorem follow_bulk_max_follows_zero_counterexample:
  "\<not> length (out_results (projr (fst (follow_bulk demo_env 5 [acct_a, acct_c] (Some 0) w0))))
       \<le> nat 0
   \<and> follow_calls (snd (follow_bulk demo_env 5 [acct_a, acct_c] (Some 0) w0))
       = [PStr ''did:plc:a'', PStr ''did:plc:c'']"
  by (simp add: follow_eval)

text \<open>
  C7 at the failing input.  For an account without identifier the appended dictionary
  has no \<open>timestamp\<close> key, whatever the remote service, the delay and the clock are.
\<close>

theorem follow_bulk_no_did_has_no_timestamp:
  "fst (follow_bulk env delay [acct_no_did] None w) =
     Inr \<lparr>out_success = True,
          out_results =
            [\<lparr>r_did = PNone, r_handle = PStr ''nobody.bsky.social'', r_success = False,
              r_uri = None, r_error = Some ''No DID provided'', r_timestamp = None\<rparr>],
          out_summary =
            \<lparr>total_attempted = 1, sum_successful = 0, sum_already_following = 0,
             sum_failed = 1, sum_rate_limited = 0, rate_limited_stopped = False\<rparr>\<rparr>"
  by (simp add: Let_def follow_bulk_def accounts_to_process_def initial_bulk_state_def
        follow_body_def account_did_def account_handle_def dict_get_def py_or_def
        no_did_result_def acct_no_did_def)

lemma follow_body_cong:
  assumes "result_did a = result_did b" and "account_handle a = account_handle b"
  shows "follow_body env delay total_n i a st w = follow_body env delay total_n i b st w"
proof (cases "truthy (account_did a)")
  case True
  with assms(1) have "truthy (account_did b)" and "account_did a = account_did b"
    by (auto simp: result_did_def split: if_splits)
  with assms(2) show ?thesis
    by (simp add: follow_body_def)
next
  case False
  with assms(1) have "\<not> truthy (account_did b)"
    by (auto simp: result_did_def split: if_splits)
  with False assms(2) show ?thesis
    by (simp add: follow_body_def)
qed

lemma follow_loop_cong:
  "map result_did xs = map result_did ys \<Longrightarrow> map account_handle xs = map account_handle ys
     \<Longrightarrow> follow_loop env delay total_n i xs st w = follow_loop env delay total_n i ys st w"
proof (induction xs arbitrary: ys i st w)
  case Nil
  then show ?case by simp
next
  case (Cons a xs)
  then obtain b ys1 where ys: "ys = b # ys1"
    by (cases ys) auto
  with Cons.prems have heads: "result_did a = result_did b" "account_handle a = account_handle b"
    and tails: "map result_did xs = map result_did ys1"
      "map account_handle xs = map account_handle ys1"
    by simp_all
  from heads have "follow_body env delay total_n i a st w
      = follow_body env delay total_n i b st w"
    by (rule follow_body_cong)
  with Cons.IH [OF tails] ys show ?case
    by (simp split: prod.splits sum.splits loop_ctl.splits)
qed

lemma accounts_to_process_map:
  "map f (accounts_to_process xs max_follows)
     = (case max_follows of
          Some m \<Rightarrow> if m \<noteq> 0 then slice_to (map f xs) m else map f xs
        | None \<Rightarrow> map f xs)"
  by (simp add: accounts_to_process_def slice_to_def take_map split: option.splits)

lemma follow_bulk_cong:
  assumes "map result_did xs = map result_did ys"
    and "map account_handle xs = map account_handle ys"
  shows "follow_bulk env delay xs max_follows w = follow_bulk env delay ys max_follows w"
proof -
  have d: "map result_did (accounts_to_process xs max_follows)
      = map result_did (accounts_to_process ys max_follows)"
    by (simp only: accounts_to_process_map assms(1))
  have h: "map account_handle (accounts_to_process xs max_follows)
      = map account_handle (accounts_to_process ys max_follows)"
    by (simp only: accounts_to_process_map assms(2))
  from d have "length (accounts_to_process xs max_follows)
      = length (accounts_to_process ys max_follows)"
    by (rule map_eq_imp_length_eq)
  with follow_loop_cong [OF d h] show ?thesis
    by (simp add: follow_bulk_def Let_def)
qed

lemma falsy_key_like_absent:
  assumes "\<not> truthy v" and "k = ''did'' \<or> k = ''DID''"
  shows "result_did (a(k \<mapsto> v)) = result_did (a(k := None))"
    and "account_handle (a(k \<mapsto> v)) = account_handle (a(k := None))"
  using assms
  by (auto simp: result_did_def account_did_def account_handle_def py_or_def dict_get_def)

text \<open>
  C10.  In every run of \<open>follow_bulk\<close> the identifier of an account is the value under
  \<open>did\<close> when that is truthy and the value under \<open>DID\<close> otherwise; the remote calls are
  exactly the truthy identifiers of the processed accounts, so no falsy value (and never
  the empty string) is passed to the remote service; an account whose two values are both
  missing or falsy gets the "No DID provided" failure.  A falsy value under either key
  is the same as no value: replacing it by a missing key changes nothing in the outcome.
\<close>

theorem follow_bulk_falsy_did_is_absent:
  "(\<exists>n \<le> length (accounts_to_process accounts max_follows).
       follow_calls (snd (follow_bulk env delay accounts max_follows w))
         = follow_calls w @ filter truthy
             (map (\<lambda>a. if truthy (dict_get a ''did'') then dict_get a ''did''
                        else dict_get a ''DID'')
                (take n (accounts_to_process accounts max_follows))))
   \<and> (\<forall>d \<in> set (drop (length (follow_calls w))
                   (follow_calls (snd (follow_bulk env delay accounts max_follows w)))).
         truthy d \<and> d \<noteq> PStr [])
   \<and> (pause_ok env delay
        \<longrightarrow> (\<exists>out w1. follow_bulk env delay accounts max_follows w = (Inr out, w1)))
   \<and> (\<forall>out w1.
         follow_bulk env delay accounts max_follows w = (Inr out, w1)
       \<longrightarrow> follow_calls w1
             = follow_calls w @ filter truthy
                 (map (\<lambda>a. if truthy (dict_get a ''did'') then dict_get a ''did''
                            else dict_get a ''DID'')
                    (take (length (out_results out))
                       (accounts_to_process accounts max_follows)))
         \<and> (\<forall>k < length (out_results out).
               \<not> truthy (dict_get (accounts_to_process accounts max_follows ! k) ''did'')
               \<and> \<not> truthy (dict_get (accounts_to_process accounts max_follows ! k) ''DID'')
               \<longrightarrow> out_results out ! k
                     = \<lparr>r_did = PNone,
                        r_handle = account_handle
                          (accounts_to_process accounts max_follows ! k),
                        r_success = False, r_uri = None,
                        r_error = Some ''No DID provided'', r_timestamp = None\<rparr>))
   \<and> (\<not> truthy v \<and> (k = ''did'' \<or> k = ''DID'')
        \<longrightarrow> follow_bulk env delay (pre @ a(k \<mapsto> v) # post) max_follows w
              = follow_bulk env delay (pre @ a(k := None) # post) max_follows w)"
proof -
  have did: "account_did = (\<lambda>a. if truthy (dict_get a ''did'') then dict_get a ''did''
                                 else dict_get a ''DID'')"
    by (rule ext) (simp add: account_did_def py_or_def)
  obtain n where n: "n \<le> length (accounts_to_process accounts max_follows)"
    "follow_calls (snd (follow_bulk env delay accounts max_follows w))
       = follow_calls w @ filter truthy (map account_did
           (take n (accounts_to_process accounts max_follows)))"
    using follow_bulk_calls [of accounts max_follows env delay w] by blast
  have calls: "\<exists>n \<le> length (accounts_to_process accounts max_follows).
       follow_calls (snd (follow_bulk env delay accounts max_follows w))
         = follow_calls w @ filter truthy
             (map (\<lambda>a. if truthy (dict_get a ''did'') then dict_get a ''did''
                        else dict_get a ''DID'')
                (take n (accounts_to_process accounts max_follows)))"
    using n unfolding did by blast
  have truthy_only: "\<forall>d \<in> set (drop (length (follow_calls w))
                   (follow_calls (snd (follow_bulk env delay accounts max_follows w)))).
         truthy d \<and> d \<noteq> PStr []"
    by (auto simp: n(2))
  have total: "\<exists>out w1. follow_bulk env delay accounts max_follows w = (Inr out, w1)"
    if "pause_ok env delay"
    using that by (rule follow_bulk_total)
  have returned: "follow_calls w1
             = follow_calls w @ filter truthy
                 (map (\<lambda>a. if truthy (dict_get a ''did'') then dict_get a ''did''
                            else dict_get a ''DID'')
                    (take (length (out_results out))
                       (accounts_to_process accounts max_follows)))
         \<and> (\<forall>k < length (out_results out).
               \<not> truthy (dict_get (accounts_to_process accounts max_follows ! k) ''did'')
               \<and> \<not> truthy (dict_get (accounts_to_process accounts max_follows ! k) ''DID'')
               \<longrightarrow> out_results out ! k
                     = \<lparr>r_did = PNone,
                        r_handle = account_handle
                          (accounts_to_process accounts max_follows ! k),
                        r_success = False, r_uri = None,
                        r_error = Some ''No DID provided'', r_timestamp = None\<rparr>)"
    if run: "follow_bulk env delay accounts max_follows w = (Inr out, w1)" for out w1
  proof -
    note b = follow_bulk_returned [OF run]
    have missing: "out_results out ! j
          = \<lparr>r_did = PNone,
             r_handle = account_handle (accounts_to_process accounts max_follows ! j),
             r_success = False, r_uri = None, r_error = Some ''No DID provided'',
             r_timestamp = None\<rparr>"
      if "j < length (out_results out)"
        and "\<not> truthy (dict_get (accounts_to_process accounts max_follows ! j) ''did'')"
        and "\<not> truthy (dict_get (accounts_to_process accounts max_follows ! j) ''DID'')" for j
    proof -
      from b(1,2) that(1) have "result_of_account
          (accounts_to_process accounts max_follows ! j) (out_results out ! j)"
        by (auto dest: list_all2_nthD2)
      moreover from that(2,3)
      have "\<not> truthy (account_did (accounts_to_process accounts max_follows ! j))"
        by (simp add: account_did_def py_or_def)
      ultimately show ?thesis
        by (simp add: result_of_account_def no_did_result_def)
    qed
    from b(11) missing show ?thesis
      unfolding did by simp
  qed
  have same: "follow_bulk env delay (pre @ a(k \<mapsto> v) # post) max_follows w
      = follow_bulk env delay (pre @ a(k := None) # post) max_follows w"
    if "\<not> truthy v" and "k = ''did'' \<or> k = ''DID''"
    by (rule follow_bulk_cong) (simp_all add: falsy_key_like_absent [OF that])
  from calls truthy_only total returned same show ?thesis
    by blast
qed

text \<open>
  A batch with an empty \<open>did\<close> beside a usable \<open>DID\<close>, and an empty \<open>did\<close> without
  \<open>DID\<close>: the first is followed under its \<open>DID\<close>, the second is never sent.
\<close>

theorem follow_bulk_falsy_did_is_absent_witness:
  "\<not> truthy (PStr []) \<and> (''did'' = ''did'' \<or> ''did'' = ''DID'')
   \<and> pause_ok demo_env 5
   \<and> follow_calls (snd (follow_bulk demo_env 5 [acct_blank, acct_b, acct_a] None w0))
       = [PStr ''did:plc:b'']
   \<and> map r_error (out_results (projr (fst
        (follow_bulk demo_env 5 [acct_blank, acct_b, acct_a] None w0))))
       = [Some ''No DID provided'', Some ''Rate limited'']
   \<and> follow_bulk demo_env 5 ([acct_a] @ acct_no_did(''did'' \<mapsto> PStr []) # [acct_c]) None w0
       = follow_bulk demo_env 5 ([acct_a] @ acct_no_did(''did'' := None) # [acct_c]) None w0"
proof -
  have ev: "follow_calls (snd (follow_bulk demo_env 5 [acct_blank, acct_b, acct_a] None w0))
       = [PStr ''did:plc:b'']"
    "map r_error (out_results (projr (fst
        (follow_bulk demo_env 5 [acct_blank, acct_b, acct_a] None w0))))
       = [Some ''No DID provided'', Some ''Rate limited'']"
    "pause_ok demo_env 5"
    by (simp_all add: follow_eval)
  have hyp: "\<not> truthy (PStr []) \<and> (''did'' = ''did'' \<or> ''did'' = ''DID'')"
    by simp
  with follow_bulk_falsy_did_is_absent
    [where env = demo_env and delay = 5 and max_follows = None and w = w0
       and v = "PStr []" and k = "''did''" and pre = "[acct_a]" and a = acct_no_did
       and post = "[acct_c]" and accounts = "[]"]
  have "follow_bulk demo_env 5 ([acct_a] @ acct_no_did(''did'' \<mapsto> PStr []) # [acct_c]) None w0
       = follow_bulk demo_env 5 ([acct_a] @ acct_no_did(''did'' := None) # [acct_c]) None w0"
    by blast
  with ev hyp show ?thesis
    by blast
qed

section \<open>The scraper: deduplication\<close>

lemma first_new_Cons:
  "map (nth (a # xs))
     (filter (\<lambda>i. acc_did ((a # xs) ! i) \<notin> seen
                   \<and> (\<forall>j<i. acc_did ((a # xs) ! j) \<noteq> acc_did ((a # xs) ! i)))
        [0..<Suc (length xs)])
   = (if acc_did a \<notin> seen then [a] else [])
     @ map (nth xs)
         (filter (\<lambda>i. acc_did (xs ! i) \<notin> insert (acc_did a) seen
                       \<and> (\<forall>j<i. acc_did (xs ! j) \<noteq> acc_did (xs ! i)))
            [0..<length xs])"
proof -
  have upt: "[0..<Suc (length xs)] = 0 # map Suc [0..<length xs]"
    by (simp add: upt_conv_Cons map_Suc_upt del: upt_Suc)
  have all_less: "(\<forall>j<Suc i. acc_did ((a # xs) ! j) \<noteq> d)
      \<longleftrightarrow> acc_did a \<noteq> d \<and> (\<forall>j<i. acc_did (xs ! j) \<noteq> d)" for i d
    by (auto simp: less_Suc_eq_0_disj)
  have cond: "(\<lambda>i. acc_did (xs ! i) \<notin> seen \<and> acc_did a \<noteq> acc_did (xs ! i)
                  \<and> (\<forall>j<i. acc_did (xs ! j) \<noteq> acc_did (xs ! i)))
      = (\<lambda>i. acc_did (xs ! i) \<notin> insert (acc_did a) seen
                  \<and> (\<forall>j<i. acc_did (xs ! j) \<noteq> acc_did (xs ! i)))"
    by (rule ext) auto
  show ?thesis
    unfolding upt by (simp add: filter_map o_def all_less cond)
qed

lemma dedup_loop_index:
  "dedup_loop xs unique_accounts seen =
     (unique_accounts @ map (nth xs)
        (filter (\<lambda>i. acc_did (xs ! i) \<notin> seen
                      \<and> (\<forall>j<i. acc_did (xs ! j) \<noteq> acc_did (xs ! i)))
           [0..<length xs]),
      seen \<union> acc_did ` set xs)"
proof (induction xs arbitrary: unique_accounts seen)
  case Nil
  show ?case by simp
next
  case (Cons a xs)
  have len: "length (a # xs) = Suc (length xs)" by simp
  show ?case
  proof (cases "acc_did a \<in> seen")
    case True
    then have "insert (acc_did a) seen = seen" by auto
    with True show ?thesis
      unfolding len first_new_Cons by (auto simp: Cons.IH)
  next
    case False
    then show ?thesis
      unfolding len first_new_Cons by (simp add: Cons.IH)
  qed
qed

lemma dedup_loop_out:
  "\<exists>new. dedup_loop xs unique_accounts seen = (unique_accounts @ new, seen \<union> acc_did ` set xs)
     \<and> distinct (map acc_did new)
     \<and> acc_did ` set new \<inter> seen = {}
     \<and> acc_did ` set new \<subseteq> acc_did ` set xs
     \<and> subseq new xs"
proof (induction xs arbitrary: unique_accounts seen)
  case Nil
  show ?case by simp
next
  case (Cons a xs)
  show ?case
  proof (cases "acc_did a \<in> seen")
    case True
    obtain new where "dedup_loop xs unique_accounts seen
        = (unique_accounts @ new, seen \<union> acc_did ` set xs)"
      "distinct (map acc_did new)" "acc_did ` set new \<inter> seen = {}"
      "acc_did ` set new \<subseteq> acc_did ` set xs" "subseq new xs"
      using Cons.IH [of unique_accounts seen] by blast
    with True show ?thesis
      by (intro exI [of _ new]) auto
  next
    case False
    obtain new where "dedup_loop xs (unique_accounts @ [a]) (insert (acc_did a) seen)
        = ((unique_accounts @ [a]) @ new, insert (acc_did a) seen \<union> acc_did ` set xs)"
      "distinct (map acc_did new)" "acc_did ` set new \<inter> insert (acc_did a) seen = {}"
      "acc_did ` set new \<subseteq> acc_did ` set xs" "subseq new xs"
      using Cons.IH [of "unique_accounts @ [a]" "insert (acc_did a) seen"] by blast
    with False show ?thesis
      by (intro exI [of _ "a # new"]) auto
  qed
qed

lemma dedup_loop_fresh:
  "distinct (map acc_did xs) \<Longrightarrow> acc_did ` set xs \<inter> seen = {}
     \<Longrightarrow> dedup_loop xs unique_accounts seen
           = (unique_accounts @ xs, seen \<union> acc_did ` set xs)"
  by (induction xs arbitrary: unique_accounts seen) auto

lemma dedup_loop_all_seen:
  "acc_did ` set xs \<subseteq> seen \<Longrightarrow> dedup_loop xs unique_accounts seen = (unique_accounts, seen)"
  by (induction xs arbitrary: unique_accounts) auto

text \<open>The seen-set \<open>deduplicate\<close> starts its loop from.\<close>

lemma deduplicate_unfold:
  "deduplicate sc accounts seen_arg =
     (case dedup_loop accounts []
             (seen_dids sc \<union> (case seen_arg of Some ds \<Rightarrow> set ds | None \<Rightarrow> {})) of
        (unique_accounts, seen1) \<Rightarrow> (unique_accounts, sc\<lparr>seen_dids := seen1\<rparr>))"
  by (simp add: deduplicate_def split: option.splits)
lemmas dedup_eval =
  deduplicate_def Let_def demo_account_def make_account_def demo_actor_def getattr_default_def
  fresh_scraper_def used_scraper_def

text \<open>
  C2.  On a scraper whose seen-set is \<open>P\<close>, \<open>deduplicate\<close> applied to \<open>X\<close> and the supplied
  identifiers \<open>S\<close> returns, in the order of \<open>X\<close>, exactly the accounts at the positions
  whose identifier is neither in \<open>P\<close> nor in \<open>S\<close> and occurs at no earlier position of
  \<open>X\<close>.  So the output is a subsequence of \<open>X\<close> without repeated identifiers, none of
  them in \<open>P\<close> or \<open>S\<close>; afterwards the seen-set holds \<open>P\<close>, \<open>S\<close> and every identifier
  of \<open>X\<close>.
\<close>

theorem deduplicate_first_unseen:
  "fst (deduplicate sc X S) =
     map (nth X)
       (filter (\<lambda>i. acc_did (X ! i) \<notin> seen_dids sc
                     \<and> acc_did (X ! i) \<notin> (case S of Some ds \<Rightarrow> set ds | None \<Rightarrow> {})
                     \<and> (\<forall>j<i. acc_did (X ! j) \<noteq> acc_did (X ! i)))
          [0..<length X])
   \<and> subseq (fst (deduplicate sc X S)) X
   \<and> distinct (map acc_did (fst (deduplicate sc X S)))
   \<and> (\<forall>a \<in> set (fst (deduplicate sc X S)).
         acc_did a \<notin> seen_dids sc
         \<and> acc_did a \<notin> (case S of Some ds \<Rightarrow> set ds | None \<Rightarrow> {}))
   \<and> seen_dids (snd (deduplicate sc X S))
       = seen_dids sc \<union> (case S of Some ds \<Rightarrow> set ds | None \<Rightarrow> {}) \<union> acc_did ` set X"
proof -
  define seen0 where
    "seen0 = seen_dids sc \<union> (case S of Some ds \<Rightarrow> set ds | None \<Rightarrow> {})"
  obtain new where new:
    "dedup_loop X [] seen0 = ([] @ new, seen0 \<union> acc_did ` set X)"
    "distinct (map acc_did new)" "acc_did ` set new \<inter> seen0 = {}" "subseq new X"
    using dedup_loop_out [of X "[]" seen0] by blast
  have out: "fst (deduplicate sc X S) = new"
    using new(1) by (simp add: deduplicate_unfold seen0_def)
  have seen: "seen_dids (snd (deduplicate sc X S))
      = seen_dids sc \<union> (case S of Some ds \<Rightarrow> set ds | None \<Rightarrow> {}) \<union> acc_did ` set X"
    using new(1) by (simp add: deduplicate_unfold seen0_def)
  have "fst (dedup_loop X [] (seen_dids sc
      \<union> (case S of Some ds \<Rightarrow> set ds | None \<Rightarrow> {}))) = new"
    using new(1) by (simp add: seen0_def)
  then have index: "new =
     map (nth X)
       (filter (\<lambda>i. acc_did (X ! i) \<notin> seen_dids sc
                     \<and> acc_did (X ! i) \<notin> (case S of Some ds \<Rightarrow> set ds | None \<Rightarrow> {})
                     \<and> (\<forall>j<i. acc_did (X ! j) \<noteq> acc_did (X ! i)))
          [0..<length X])"
    by (simp add: dedup_loop_index conj_assoc)
  have unseen: "\<forall>a \<in> set new.
         acc_did a \<notin> seen_dids sc
         \<and> acc_did a \<notin> (case S of Some ds \<Rightarrow> set ds | None \<Rightarrow> {})"
    using new(3) by (auto simp: seen0_def)
  show ?thesis
    unfolding out by (intro conjI index new(2) new(4) unseen seen)
qed

text \<open>Six accounts with repetitions, on a scraper that has seen \<open>a3\<close>, with \<open>a4\<close>
  supplied: the first occurrences of \<open>a1\<close> and \<open>a2\<close> remain.\<close>

theorem deduplicate_first_unseen_witness:
  "fst (deduplicate used_scraper
          [demo_account ''a1'', demo_account ''a2'', demo_account ''a1'',
           demo_account ''a3'', demo_account ''a4'', demo_account ''a2''] (Some [''a4'']))
     = [demo_account ''a1'', demo_account ''a2'']
   \<and> seen_dids (snd (deduplicate used_scraper
          [demo_account ''a1'', demo_account ''a2'', demo_account ''a1'',
           demo_account ''a3'', demo_account ''a4'', demo_account ''a2''] (Some [''a4''])))
     = {''a1'', ''a2'', ''a3'', ''a4''}"
proof -
  have ev: "fst (deduplicate used_scraper
          [demo_account ''a1'', demo_account ''a2'', demo_account ''a1'',
           demo_account ''a3'', demo_account ''a4'', demo_account ''a2''] (Some [''a4'']))
     = [demo_account ''a1'', demo_account ''a2'']"
    by (simp add: dedup_eval)
  have "seen_dids (snd (deduplicate used_scraper
          [demo_account ''a1'', demo_account ''a2'', demo_account ''a1'',
           demo_account ''a3'', demo_account ''a4'', demo_account ''a2''] (Some [''a4''])))
     = seen_dids used_scraper \<union> set [''a4'']
       \<union> acc_did ` set [demo_account ''a1'', demo_account ''a2'', demo_account ''a1'',
           demo_account ''a3'', demo_account ''a4'', demo_account ''a2'']"
    using deduplicate_first_unseen [of used_scraper
          "[demo_account ''a1'', demo_account ''a2'', demo_account ''a1'',
           demo_account ''a3'', demo_account ''a4'', demo_account ''a2'']" "Some [''a4'']"]
    by simp
  then have "seen_dids (snd (deduplicate used_scraper
          [demo_account ''a1'', demo_account ''a2'', demo_account ''a1'',
           demo_account ''a3'', demo_account ''a4'', demo_account ''a2''] (Some [''a4''])))
     = {''a1'', ''a2'', ''a3'', ''a4''}"
    by (auto simp: used_scraper_def demo_account_def make_account_def demo_actor_def)
  with ev show ?thesis by simp
qed

text \<open>
  C5, as the code has it.  \<open>deduplicate\<close> changes the seen-set of the scraper, so it is
  idempotent relative to the seen-set a pass starts from.  A second pass over the output
  that starts from the state the first pass started from (with the same supplied
  identifiers, or with none) returns the output unchanged, and so does a pass on any
  scraper that has seen none of the output's identifiers, such as a new one.  A second
  pass on the scraper the first pass has run on returns the empty list.
\<close>

theorem deduplicate_idempotent_from_same_seen:
  "fst (deduplicate sc (fst (deduplicate sc X S)) S) = fst (deduplicate sc X S)
   \<and> fst (deduplicate sc (fst (deduplicate sc X S)) None) = fst (deduplicate sc X S)
   \<and> ((seen_dids sc2 \<union> (case S2 of Some ds \<Rightarrow> set ds | None \<Rightarrow> {}))
         \<inter> acc_did ` set (fst (deduplicate sc X S)) = {}
       \<longrightarrow> fst (deduplicate sc2 (fst (deduplicate sc X S)) S2) = fst (deduplicate sc X S))
   \<and> fst (deduplicate (snd (deduplicate sc X S)) (fst (deduplicate sc X S)) S3) = []"
proof -
  define seen0 where
    "seen0 = seen_dids sc \<union> (case S of Some ds \<Rightarrow> set ds | None \<Rightarrow> {})"
  obtain new where new:
    "dedup_loop X [] seen0 = ([] @ new, seen0 \<union> acc_did ` set X)"
    "distinct (map acc_did new)" "acc_did ` set new \<inter> seen0 = {}"
    "acc_did ` set new \<subseteq> acc_did ` set X"
    using dedup_loop_out [of X "[]" seen0] by blast
  have out: "fst (deduplicate sc X S) = new"
    and seen: "seen_dids (snd (deduplicate sc X S)) = seen0 \<union> acc_did ` set X"
    using new(1) by (simp_all add: deduplicate_unfold seen0_def)
  have fresh: "fst (deduplicate sc' new S') = new"
    if "(seen_dids sc' \<union> (case S' of Some ds \<Rightarrow> set ds | None \<Rightarrow> {}))
          \<inter> acc_did ` set new = {}" for sc' S'
  proof -
    from that have "acc_did ` set new
        \<inter> (seen_dids sc' \<union> (case S' of Some ds \<Rightarrow> set ds | None \<Rightarrow> {})) = {}"
      by auto
    with new(2) show ?thesis
      by (simp add: deduplicate_unfold dedup_loop_fresh)
  qed
  have same: "fst (deduplicate sc new S) = new"
    using new(3) by (intro fresh) (auto simp: seen0_def)
  have none: "fst (deduplicate sc new None) = new"
    using new(3) by (intro fresh) (auto simp: seen0_def)
  have again: "fst (deduplicate (snd (deduplicate sc X S)) new S3) = []"
  proof -
    from new(4) have "acc_did ` set new
        \<subseteq> seen_dids (snd (deduplicate sc X S))
            \<union> (case S3 of Some ds \<Rightarrow> set ds | None \<Rightarrow> {})"
      unfolding seen by auto
    then show ?thesis
      by (simp add: deduplicate_unfold [of "snd (deduplicate sc X S)"] dedup_loop_all_seen)
  qed
  from same none fresh again show ?thesis
    unfolding out by blast
qed

theorem deduplicate_idempotent_from_same_seen_witness:
  "(seen_dids fresh_scraper \<union> {})
      \<inter> acc_did ` set (fst (deduplicate used_scraper
            [demo_account ''a1'', demo_account ''a3'', demo_account ''a1''] None)) = {}
   \<and> fst (deduplicate fresh_scraper
        (fst (deduplicate used_scraper
            [demo_account ''a1'', demo_account ''a3'', demo_account ''a1''] None)) None)
      = [demo_account ''a1'']"
proof -
  have ev: "fst (deduplicate used_scraper
            [demo_account ''a1'', demo_account ''a3'', demo_account ''a1''] None)
      = [demo_account ''a1'']"
    by (simp add: dedup_eval)
  have hyp: "(seen_dids fresh_scraper \<union> (case None of Some ds \<Rightarrow> set ds | None \<Rightarrow> {}))
      \<inter> acc_did ` set (fst (deduplicate used_scraper
            [demo_account ''a1'', demo_account ''a3'', demo_account ''a1''] None)) = {}"
    by (simp add: fresh_scraper_def)
  from deduplicate_idempotent_from_same_seen
      [of used_scraper "[demo_account ''a1'', demo_account ''a3'', demo_account ''a1'']"
          None fresh_scraper None None] hyp
  have "fst (deduplicate fresh_scraper
        (fst (deduplicate used_scraper
            [demo_account ''a1'', demo_account ''a3'', demo_account ''a1''] None)) None)
      = fst (deduplicate used_scraper
            [demo_account ''a1'', demo_account ''a3'', demo_account ''a1''] None)"
    by blast
  with ev hyp show ?thesis by simp
qed

text \<open>
  The claim C5 as stated fails on a scraper object: the first pass puts the identifier of
  the account it keeps into the seen-set, and the second pass on the same scraper then
  removes that account.
\<close>

theorem deduplicate_twice_counterexample:
  "fst (deduplicate (snd (deduplicate fresh_scraper [demo_account ''a1''] None))
         (fst (deduplicate fresh_scraper [demo_account ''a1''] None)) None)
     \<noteq> fst (deduplicate fresh_scraper [demo_account ''a1''] None)
   \<and> fst (deduplicate fresh_scraper [demo_account ''a1''] None) = [demo_account ''a1'']
   \<and> fst (deduplicate (snd (deduplicate fresh_scraper [demo_account ''a1''] None))
         (fst (deduplicate fresh_scraper [demo_account ''a1''] None)) None) = []"
  by (simp add: dedup_eval)

section \<open>The scraper: pagination\<close>

lemma strip_ts_make_account [simp]: "strip_ts (make_account keyword a ts) = make_account keyword a []"
  by (simp add: strip_ts_def make_account_def)

lemma collect_actors_returns:
  "\<exists>accs. collect_actors env keyword actors all_accounts w
             = (all_accounts @ accs, w\<lparr>clock_reads := clock_reads w + length actors\<rparr>)
        \<and> map strip_ts accs = map (\<lambda>a. make_account keyword a []) actors"
proof (induction actors arbitrary: all_accounts w)
  case Nil
  show ?case by simp
next
  case (Cons a actors)
  obtain accs where
    "collect_actors env keyword actors
        (all_accounts @ [make_account keyword a (now_iso env (clock_reads w))])
        (w\<lparr>clock_reads := Suc (clock_reads w)\<rparr>)
      = ((all_accounts @ [make_account keyword a (now_iso env (clock_reads w))]) @ accs,
         w\<lparr>clock_reads := Suc (clock_reads w), clock_reads := Suc (clock_reads w) + length actors\<rparr>)"
    "map strip_ts accs = map (\<lambda>a. make_account keyword a []) actors"
    using Cons.IH [of "all_accounts @ [make_account keyword a (now_iso env (clock_reads w))]"
        "w\<lparr>clock_reads := Suc (clock_reads w)\<rparr>"]
    by auto
  then show ?case
    by (intro exI [of _ "make_account keyword a (now_iso env (clock_reads w)) # accs"])
       (simp add: now_def)
qed

lemma scrape_loop_returns:
  "\<exists>trace all1 page1 w1.
     scrape_loop env maxp delay keyword all_accounts cursor page w = (all1, page1, w1)
   \<and> search_log w1 = search_log w @ trace
   \<and> follow_calls w1 = follow_calls w
   \<and> int (length trace) \<le> max 0 (maxp - page)
   \<and> map strip_ts all1 = map strip_ts all_accounts @ concat (map page_accounts trace)
   \<and> (\<forall>x \<in> set (butlast trace). continues x)
   \<and> (\<forall>x \<in> set trace. param_q (fst x) = keyword \<and> param_limit (fst x) = 100)
   \<and> (page < maxp \<longrightarrow> trace \<noteq> [] \<and> fst (hd trace) = request keyword cursor)
   \<and> (\<forall>k < length trace.
         snd (trace ! k) = search_actors env (length (search_log w) + k) (fst (trace ! k)))
   \<and> ((trace \<noteq> [] \<and> \<not> continues (last trace))
        \<or> int (length trace) = max 0 (maxp - page)
        \<or> (trace \<noteq> [] \<and> continues (last trace) \<and> \<not> pause_ok env delay))"
proof (induction "nat (maxp - page)" arbitrary: all_accounts cursor page w)
  case 0
  then have "\<not> page < maxp" by simp
  then show ?case
    by (intro exI [of _ "[]::exchange list"]) (simp add: scrape_loop.simps [of env maxp delay keyword])
next
  case (Suc n)
  then have lt: "page < maxp" by simp
  define x where "x = (request keyword cursor,
      search_actors env (length (search_log w)) (request keyword cursor))"
  define w1 where "w1 = w\<lparr>search_log := search_log w @ [x]\<rparr>"
  have search: "do_search env (request keyword cursor) w = (snd x, w1)"
    by (simp add: do_search_def x_def w1_def Let_def)
  have unfold: "scrape_loop env maxp delay keyword all_accounts cursor page w =
     (case snd x of
        Inl e \<Rightarrow> (all_accounts, page, w1)
      | Inr response \<Rightarrow>
          (let actors = (case resp_actors response of Some acts \<Rightarrow> acts | None \<Rightarrow> [])
           in if actors = [] then (all_accounts, page, w1)
              else
                (case collect_actors env keyword actors all_accounts w1 of
                   (all1, w2) \<Rightarrow>
                     (let page1 = page + 1;
                          cursor1 = resp_cursor response
                      in if \<not> cursor_truthy cursor1 then (all1, page1, w2)
                         else if page1 < maxp then
                           (case sleep env delay w2 of
                              Inl e \<Rightarrow> (all1, page1, w2)
                            | Inr w3 \<Rightarrow>
                                scrape_loop env maxp delay keyword all1 cursor1 page1 w3)
                         else scrape_loop env maxp delay keyword all1 cursor1 page1 w2))))"
    using lt search
    by (subst scrape_loop.simps) (simp add: request_def Let_def)
  have qx: "param_q (fst x) = keyword" "param_limit (fst x) = 100"
    by (simp_all add: x_def request_def)
  have fx: "fst (hd [x]) = request keyword cursor"
    by (simp add: x_def)
  have ax: "snd x = search_actors env (length (search_log w)) (fst x)"
    by (simp add: x_def)
  show ?case
  proof (cases "snd x")
    case (Inl e)
    then have "\<not> continues x" "page_accounts x = []"
      by (simp_all add: continues_def page_accounts_def page_actors_def)
    with Inl lt qx ax fx show ?thesis
      by (intro exI [of _ "[x]"]) (simp add: unfold w1_def)
  next
    case (Inr response)
    define actors where
      "actors = (case resp_actors response of Some acts \<Rightarrow> acts | None \<Rightarrow> [])"
    have pa: "page_actors x = actors"
      by (simp add: page_actors_def Inr actors_def)
    show ?thesis
    proof (cases "actors = []")
      case True
      with pa Inr have "\<not> continues x" "page_accounts x = []"
        by (simp_all add: continues_def page_accounts_def)
      with Inr True lt qx ax fx show ?thesis
        by (intro exI [of _ "[x]"]) (simp add: unfold w1_def actors_def [symmetric])
    next
      case False
      obtain accs where accs:
        "collect_actors env keyword actors all_accounts w1
           = (all_accounts @ accs, w1\<lparr>clock_reads := clock_reads w1 + length actors\<rparr>)"
        "map strip_ts accs = map (\<lambda>a. make_account keyword a []) actors"
        using collect_actors_returns [of env keyword actors all_accounts w1] by blast
      define w2 where "w2 = w1\<lparr>clock_reads := clock_reads w1 + length actors\<rparr>"
      have px: "page_accounts x = map strip_ts accs"
        by (simp add: page_accounts_def pa accs(2) qx)
      show ?thesis
      proof (cases "cursor_truthy (resp_cursor response)")
        case nocur: False
        with Inr have "\<not> continues x"
          by (simp add: continues_def)
        with Inr False nocur lt qx ax fx px accs(1) show ?thesis
          by (intro exI [of _ "[x]"])
             (simp add: unfold w1_def actors_def [symmetric])
      next
        case cur: True
        with Inr False pa have cont: "continues x"
          by (simp add: continues_def)
        show ?thesis
        proof (cases "page + 1 < maxp \<and> \<not> pause_ok env delay")
          case True
          then obtain e where "sleep env delay w2 = Inl e"
            using sleep_fails by blast
          with True Inr False cur accs(1)
          have "scrape_loop env maxp delay keyword all_accounts cursor page w
              = (all_accounts @ accs, page + 1, w2)"
            by (simp add: unfold actors_def [symmetric] w2_def Let_def)
          with True cont lt qx ax fx px show ?thesis
            by (intro exI [of _ "[x]"]) (simp add: w2_def w1_def)
        next
          case go: False
          define w3 where
            "w3 = (if page + 1 < maxp then w2\<lparr>slept := slept w2 @ [delay]\<rparr> else w2)"
          have logs: "search_log w3 = search_log w @ [x]" "follow_calls w3 = follow_calls w"
            by (simp_all add: w3_def w2_def w1_def)
          have step: "scrape_loop env maxp delay keyword all_accounts cursor page w =
              scrape_loop env maxp delay keyword (all_accounts @ accs)
                (resp_cursor response) (page + 1) w3"
            using Inr False cur accs(1) go
            by (auto simp: unfold actors_def [symmetric] w3_def w2_def Let_def sleep_ok)
          from Suc(2) lt have n: "n = nat (maxp - (page + 1))" by simp
          obtain trace all1 page1 w4 where rest:
            "scrape_loop env maxp delay keyword (all_accounts @ accs)
                (resp_cursor response) (page + 1) w3 = (all1, page1, w4)"
            "search_log w4 = search_log w3 @ trace"
            "follow_calls w4 = follow_calls w3"
            "int (length trace) \<le> max 0 (maxp - (page + 1))"
            "map strip_ts all1
               = map strip_ts (all_accounts @ accs) @ concat (map page_accounts trace)"
            "\<forall>x \<in> set (butlast trace). continues x"
            "\<forall>x \<in> set trace. param_q (fst x) = keyword \<and> param_limit (fst x) = 100"
            "\<forall>k < length trace.
               snd (trace ! k) = search_actors env (length (search_log w3) + k) (fst (trace ! k))"
            "(trace \<noteq> [] \<and> \<not> continues (last trace))
               \<or> int (length trace) = max 0 (maxp - (page + 1))
               \<or> (trace \<noteq> [] \<and> continues (last trace) \<and> \<not> pause_ok env delay)"
            using Suc(1) [OF n, of "all_accounts @ accs" "resp_cursor response" w3] by blast
          from rest(4) lt have len: "int (length (x # trace)) \<le> max 0 (maxp - page)"
            by auto
          from rest(4,9) lt cont
          have stop: "(x # trace \<noteq> [] \<and> \<not> continues (last (x # trace)))
               \<or> int (length (x # trace)) = max 0 (maxp - page)
               \<or> (x # trace \<noteq> [] \<and> continues (last (x # trace)) \<and> \<not> pause_ok env delay)"
            by auto
          from rest(6) cont have but: "\<forall>y \<in> set (butlast (x # trace)). continues y"
            by simp
          from rest(8) ax logs(1)
          have answers: "\<forall>k < length (x # trace).
               snd ((x # trace) ! k)
                 = search_actors env (length (search_log w) + k) (fst ((x # trace) ! k))"
            by (auto simp: nth_Cons split: nat.splits)
          from fx have first: "fst (hd (x # trace)) = request keyword cursor"
            by simp
          from rest(1,2,3,5,7) logs qx px len stop but answers first show ?thesis
            unfolding step
            by (intro exI [of _ "x # trace"] exI [of _ all1] exI [of _ page1] exI [of _ w4]
                  conjI) simp_all
        qed
      qed
    qed
  qed
qed

lemma scrape_keyword_returns:
  "\<exists>trace accounts w1.
     scrape_keyword env sc keyword w = (accounts, w1)
   \<and> search_log w1 = search_log w @ trace
   \<and> follow_calls w1 = follow_calls w
   \<and> int (length trace) \<le> max 0 (max_pages sc)
   \<and> map strip_ts accounts = concat (map page_accounts trace)
   \<and> (\<forall>x \<in> set (butlast trace). continues x)
   \<and> (\<forall>x \<in> set trace. param_q (fst x) = keyword \<and> param_limit (fst x) = 100)
   \<and> (0 < max_pages sc \<longrightarrow> trace \<noteq> [] \<and> fst (hd trace) = request keyword None)
   \<and> (\<forall>k < length trace.
         snd (trace ! k) = search_actors env (length (search_log w) + k) (fst (trace ! k)))
   \<and> ((trace \<noteq> [] \<and> \<not> continues (last trace))
        \<or> int (length trace) = max 0 (max_pages sc)
        \<or> (trace \<noteq> [] \<and> continues (last trace) \<and> \<not> pause_ok env (scraper_delay sc)))"
proof -
  obtain trace all1 page1 w1 where loop:
    "scrape_loop env (max_pages sc) (scraper_delay sc) keyword [] None 0 w = (all1, page1, w1)"
    "search_log w1 = search_log w @ trace"
    "follow_calls w1 = follow_calls w"
    "int (length trace) \<le> max 0 (max_pages sc - 0)"
    "map strip_ts all1 = map strip_ts [] @ concat (map page_accounts trace)"
    "\<forall>x \<in> set (butlast trace). continues x"
    "\<forall>x \<in> set trace. param_q (fst x) = keyword \<and> param_limit (fst x) = 100"
    "0 < max_pages sc \<longrightarrow> trace \<noteq> [] \<and> fst (hd trace) = request keyword None"
    "\<forall>k < length trace.
       snd (trace ! k) = search_actors env (length (search_log w) + k) (fst (trace ! k))"
    "(trace \<noteq> [] \<and> \<not> continues (last trace))
        \<or> int (length trace) = max 0 (max_pages sc - 0)
        \<or> (trace \<noteq> [] \<and> continues (last trace) \<and> \<not> pause_ok env (scraper_delay sc))"
    using scrape_loop_returns [of env "max_pages sc" "scraper_delay sc" keyword "[]" None 0 w]
    by blast
  from loop(1) have "scrape_keyword env sc keyword w = (all1, w1)"
    by (simp add: scrape_keyword_def)
  with loop(2-10) show ?thesis
    by (intro exI [of _ trace] exI [of _ all1] exI [of _ w1]) simp
qed





section \<open>The scraper: claims\<close>

lemmas scrape_eval =
  scrape_multiple_keywords_def scrape_keyword_def scrape_loop.simps do_search_def Let_def
  cursor_truthy_def now_def sleep_def pause_ok_def
  make_account_def getattr_default_def demo_actor_def
  demo_env_def both_env_def w0_def fresh_scraper_def one_page_scraper_def two_page_scraper_def
  negative_delay_scraper_def
  page_accounts_def page_actors_def raised_def continues_def strip_ts_def request_def

text \<open>
  C9.  \<open>scrape_keyword\<close> is a total function: its loop is defined with the measure
  \<open>max_pages - page\<close>, which every iteration that continues decreases.  Whatever the
  remote service answers, it sends at most \<open>max_pages\<close> requests (none when the cap is
  not positive), every outcome in the log being the answer of the service to that
  request, and returns the accounts of the pages these requests delivered, in order.
  Every request but the last delivered a non-empty page with a usable cursor, so a
  raising request, an empty page and a page without cursor each end the loop at once.
  The loop ends for one of these reasons: the last request raised, or delivered an empty
  page, or came without a usable cursor; or the number of requests has reached the cap;
  or the call of \<open>time.sleep\<close> before the next request raised, which the \<open>except\<close>
  clause catches like a raising request.
\<close>

theorem scrape_keyword_page_cap:
  "\<exists>trace.
     search_log (snd (scrape_keyword env sc keyword w)) = search_log w @ trace
   \<and> int (length trace) \<le> max 0 (max_pages sc)
   \<and> (\<forall>k < length trace.
         snd (trace ! k) = search_actors env (length (search_log w) + k) (fst (trace ! k)))
   \<and> map strip_ts (fst (scrape_keyword env sc keyword w)) = concat (map page_accounts trace)
   \<and> length (filter (\<lambda>x. page_actors x \<noteq> []) trace) \<le> nat (max_pages sc)
   \<and> (\<forall>x \<in> set (butlast trace). continues x)
   \<and> ((trace \<noteq> []
         \<and> (case snd (last trace) of
               Inl e \<Rightarrow> True
             | Inr response \<Rightarrow>
                 page_actors (last trace) = [] \<or> \<not> cursor_truthy (resp_cursor response)))
        \<or> int (length trace) = max 0 (max_pages sc)
        \<or> (trace \<noteq> [] \<and> continues (last trace) \<and> \<not> pause_ok env (scraper_delay sc)))"
proof -
  obtain trace accounts w1 where kw:
    "scrape_keyword env sc keyword w = (accounts, w1)"
    "search_log w1 = search_log w @ trace"
    "int (length trace) \<le> max 0 (max_pages sc)"
    "map strip_ts accounts = concat (map page_accounts trace)"
    "\<forall>x \<in> set (butlast trace). continues x"
    "\<forall>k < length trace.
       snd (trace ! k) = search_actors env (length (search_log w) + k) (fst (trace ! k))"
    "(trace \<noteq> [] \<and> \<not> continues (last trace))
        \<or> int (length trace) = max 0 (max_pages sc)
        \<or> (trace \<noteq> [] \<and> continues (last trace) \<and> \<not> pause_ok env (scraper_delay sc))"
    using scrape_keyword_returns [of env sc keyword w] by blast
  have "length (filter (\<lambda>x. page_actors x \<noteq> []) trace) \<le> length trace"
    by (rule length_filter_le)
  with kw(3) have pages:
    "length (filter (\<lambda>x. page_actors x \<noteq> []) trace) \<le> nat (max_pages sc)"
    by linarith
  have stop: "(case snd (last trace) of
               Inl e \<Rightarrow> True
             | Inr response \<Rightarrow>
                 page_actors (last trace) = [] \<or> \<not> cursor_truthy (resp_cursor response))
      \<longleftrightarrow> \<not> continues (last trace)"
    by (simp add: continues_def split: sum.splits)
  have reason: "(trace \<noteq> []
         \<and> (case snd (last trace) of
               Inl e \<Rightarrow> True
             | Inr response \<Rightarrow>
                 page_actors (last trace) = [] \<or> \<not> cursor_truthy (resp_cursor response)))
        \<or> int (length trace) = max 0 (max_pages sc)
        \<or> (trace \<noteq> [] \<and> continues (last trace) \<and> \<not> pause_ok env (scraper_delay sc))"
    using kw(7) unfolding stop .
  from kw(1-6) pages reason show ?thesis
    by (intro exI [of _ trace] conjI) simp_all
qed

text \<open>
  With a cap of two pages and a service that always has a next page, two requests are
  made; with a cap of five the third request raises and ends the loop; with a delay of
  \<open>-1\<close> the pause after the first page raises and ends the loop.
\<close>

theorem scrape_keyword_page_cap_witness:
  "map (param_cursor \<circ> fst) (search_log (snd (scrape_keyword demo_env two_page_scraper ''ai'' w0)))
     = [None, Some ''c1'']
   \<and> map acc_did (fst (scrape_keyword demo_env two_page_scraper ''ai'' w0))
     = [''a1'', ''a2'', ''a3'']
   \<and> map (param_cursor \<circ> fst) (search_log (snd (scrape_keyword demo_env fresh_scraper ''ai'' w0)))
     = [None, Some ''c1'', Some ''c2'']
   \<and> map acc_did (fst (scrape_keyword demo_env fresh_scraper ''ai'' w0))
     = [''a1'', ''a2'', ''a3'']
   \<and> map (param_cursor \<circ> fst)
        (search_log (snd (scrape_keyword demo_env negative_delay_scraper ''ai'' w0)))
     = [None]
   \<and> map acc_did (fst (scrape_keyword demo_env negative_delay_scraper ''ai'' w0))
     = [''a1'', ''a2'']"
  using scrape_keyword_page_cap [of demo_env two_page_scraper "''ai''" w0]
    scrape_keyword_page_cap [of demo_env fresh_scraper "''ai''" w0]
  by (simp add: scrape_eval)




end
